theory Spec2Isabelle
  imports Complex_Main "HOL-Library.AList"
begin

section \<open>Experience replay buffers (\<open>yw/ddpg_main/replay_buffer.py\<close>)\<close>

text \<open>
  The theory embeds the replay buffers of \<open>replay_buffer.py\<close>: the base class with
  \<open>store_episode\<close> and \<open>dump_to_file\<close>, the ring buffer of transitions, the buffer of
  whole episodes, and the two samplers (uniform and hindsight) built on the latter.

  Conventions of the embedding.
  \<^item> A NumPy array is the list of its entries along the leading axis, together with its
    number of dimensions (the only part of the shape the code ever tests). The entries
    are the values as the array holds them (\<open>float32\<close>); the embedding never rounds.
    A value written into a slot is taken to have the shape of the slot: the shape of an
    entry is not modelled.
  \<^item> A Python \<open>dict\<close> is an association list in insertion order.
  \<^item> An exception is a value of \<open>py_error\<close>. A method that mutates \<open>self\<close> returns the
    state it leaves behind, also when it raises.
  \<^item> Every call of \<open>np.random\<close> is a parameter of the function that makes it: the array
    that call returned. What NumPy promises on it is a hypothesis of the theorems. The
    numbers of \<open>np.random.uniform\<close> are real numbers; floating-point rounding is not
    modelled.
  \<^item> Sizes and indices are \<open>nat\<close>. The subtractions of the source are on values kept in
    order by the invariants \<open>pointer \<le> size\<close> and \<open>current_size \<le> size\<close>.
\<close>

subsection \<open>Errors, arrays, indices\<close>

datatype py_error = AssertionError | KeyError | IndexError | ValueError | ZeroDivisionError

record 'a ndarray =
  ndim :: nat
  items :: "'a list"

type_synonym 'a pydict = "(string \<times> 'a) list"

text \<open>\<open>np.empty([n] + shape)\<close>: \<open>n\<close> entries of whatever the memory held (\<open>junk\<close>).\<close>

definition np_empty :: "nat \<Rightarrow> nat list \<Rightarrow> (nat \<Rightarrow> 'a) \<Rightarrow> 'a ndarray" where
  "np_empty n shape junk = \<lparr>ndim = 1 + length shape, items = map junk [0..<n]\<rparr>"

text \<open>
  What \<open>_get_storage_idx\<close> returns: an index array, or the single index \<open>idx[0]\<close> when
  \<open>inc == 1\<close>.
\<close>

datatype idx = Scalar nat | Array "nat list"

text \<open>
  \<open>xs[idxs] = vs\<close> with an index array: the entries are written in order, so that the last
  write to a repeated index stays.
\<close>

fun scatter :: "'a list \<Rightarrow> nat list \<Rightarrow> 'a list \<Rightarrow> 'a list" where
  "scatter xs (i # is) (v # vs) = scatter (xs[i := v]) is vs"
| "scatter xs _ _ = xs"

text \<open>
  \<open>arr[idxs] = value\<close>. With a single index the value has one leading entry, which
  NumPy's broadcasting writes into the slot. An index out of range raises before anything
  is written.
\<close>

definition setitem :: "'a ndarray \<Rightarrow> idx \<Rightarrow> 'a ndarray \<Rightarrow> py_error + 'a ndarray" where
  "setitem arr idxs val =
     (case idxs of
        Scalar i \<Rightarrow>
          (if \<not> i < length (items arr) then Inl IndexError
           else (case items val of
                   [v] \<Rightarrow> Inr (arr\<lparr>items := (items arr)[i := v]\<rparr>)
                 | _ \<Rightarrow> Inl ValueError))
      | Array is \<Rightarrow>
          (if \<not> list_all (\<lambda>i. i < length (items arr)) is then Inl IndexError
           else if length (items val) \<noteq> length is then Inl ValueError
           else Inr (arr\<lparr>items := scatter (items arr) is (items val)\<rparr>)))"

text \<open>What \<open>np.random.randint(low, high, n)\<close> promises about the array it returns.\<close>

definition randint_contract :: "nat \<Rightarrow> nat \<Rightarrow> nat \<Rightarrow> nat list \<Rightarrow> bool" where
  "randint_contract low high n xs \<longleftrightarrow> length xs = n \<and> list_all (\<lambda>x. low \<le> x \<and> x < high) xs"

subsection \<open>\<open>ReplayBufferBase\<close>\<close>

text \<open>
  The field \<open>size\<close> of the source is \<open>size_buf\<close> here. \<open>buffers\<close> is created by both
  subclasses in the same way and used by the base class, so it is a field of the base
  record.
\<close>

record 'a ReplayBufferBase =
  buffer_shapes :: "nat list pydict"
  size_buf :: nat
  current_size :: nat
  buffers :: "'a ndarray pydict"

text \<open>
  The loop \<open>for key in self.buffers.keys(): self.buffers[key][idxs] = episode_batch[key]\<close>.
  The arrays are written in place, one after the other: when a later field raises, the
  earlier ones stay written.
\<close>

fun store_fields ::
  "'a ndarray pydict \<Rightarrow> idx \<Rightarrow> 'a ndarray pydict \<Rightarrow> py_error option \<times> 'a ndarray pydict" where
  "store_fields [] idxs episode_batch = (None, [])"
| "store_fields ((key, arr) # rest) idxs episode_batch =
     (case map_of episode_batch key of
        None \<Rightarrow> (Some KeyError, (key, arr) # rest)
      | Some val \<Rightarrow>
          (case setitem arr idxs val of
             Inl e \<Rightarrow> (Some e, (key, arr) # rest)
           | Inr arr' \<Rightarrow>
               (case store_fields rest idxs episode_batch of
                  (r, rest') \<Rightarrow> (r, (key, arr') # rest'))))"

text \<open>
  \<open>store_episode\<close>. The method \<open>_get_storage_idx\<close> of the subclass is the first argument;
  it returns the indices and the state it leaves, or raises (both subclasses raise before
  they change anything). \<open>batch_sizes[0]\<close> of a batch without fields is an \<open>IndexError\<close>.
  The result is the exception, if any, and the state after the call.
\<close>

definition store_episode ::
  "(nat \<Rightarrow> ('a, 'z) ReplayBufferBase_scheme \<Rightarrow> py_error + idx \<times> ('a, 'z) ReplayBufferBase_scheme)
   \<Rightarrow> 'a ndarray pydict \<Rightarrow> ('a, 'z) ReplayBufferBase_scheme
   \<Rightarrow> py_error option \<times> ('a, 'z) ReplayBufferBase_scheme" where
  "store_episode get_storage_idx episode_batch self =
     (case episode_batch of
        [] \<Rightarrow> (Some IndexError, self)
      | (_, first) # _ \<Rightarrow>
          (let batch_size = length (items first) in
           if \<not> list_all (\<lambda>(key, val). length (items val) = batch_size) episode_batch
           then (Some AssertionError, self)
           else (case get_storage_idx batch_size self of
                   Inl e \<Rightarrow> (Some e, self)
                 | Inr (idxs, self1) \<Rightarrow>
                     (case store_fields (buffers self1) idxs episode_batch of
                        (Some e, bufs) \<Rightarrow> (Some e, self1\<lparr>buffers := bufs\<rparr>)
                      | (None, bufs) \<Rightarrow>
                          (None, self1\<lparr>buffers := bufs,
                                       current_size :=
                                         min (size_buf self1) (current_size self1 + batch_size)\<rparr>)))))"

text \<open>The leading dimension of a batch: \<open>batch_sizes[0]\<close>.\<close>

definition batch_size_of :: "'a ndarray pydict \<Rightarrow> nat" where
  "batch_size_of episode_batch = length (items (snd (hd episode_batch)))"


subsection \<open>\<open>RingReplayBuffer\<close>\<close>

record 'a RingReplayBuffer = "'a ReplayBufferBase" +
  pointer :: nat

definition RingReplayBuffer_init ::
  "nat list pydict \<Rightarrow> nat \<Rightarrow> (string \<Rightarrow> nat \<Rightarrow> 'a) \<Rightarrow> 'a RingReplayBuffer" where
  "RingReplayBuffer_init shapes size_in_transitions junk =
     \<lparr>buffer_shapes = shapes, size_buf = size_in_transitions, current_size = 0,
      buffers = map (\<lambda>(key, shape). (key, np_empty size_in_transitions shape (junk key))) shapes,
      pointer = 0\<rparr>"

definition RingReplayBuffer_get_storage_idx ::
  "nat \<Rightarrow> 'a RingReplayBuffer \<Rightarrow> py_error + idx \<times> 'a RingReplayBuffer" where
  "RingReplayBuffer_get_storage_idx inc self =
     (if \<not> inc \<le> size_buf self then Inl AssertionError
      else if \<not> inc > 0 then Inl AssertionError
      else
        (let (idx, self') =
           (if pointer self + inc \<le> size_buf self
            then ([pointer self..<pointer self + inc], self\<lparr>pointer := pointer self + inc\<rparr>)
            else
              (let overflow = inc - (size_buf self - pointer self);
                   idx_a = [pointer self..<size_buf self];
                   idx_b = [0..<overflow]
               in (idx_a @ idx_b, self\<lparr>pointer := overflow\<rparr>)))
         in Inr (if inc = 1 then Scalar (hd idx) else Array idx, self')))"

definition RingReplayBuffer_store_episode ::
  "'a ndarray pydict \<Rightarrow> 'a RingReplayBuffer \<Rightarrow> py_error option \<times> 'a RingReplayBuffer" where
  "RingReplayBuffer_store_episode = store_episode RingReplayBuffer_get_storage_idx"

subsection \<open>\<open>ReplayBuffer\<close> (whole episodes)\<close>

record 'a ReplayBuffer = "'a ReplayBufferBase" +
  T_horizon :: nat

text \<open>\<open>size_in_transitions // T\<close> raises for \<open>T = 0\<close>.\<close>

definition ReplayBuffer_init ::
  "nat list pydict \<Rightarrow> nat \<Rightarrow> nat \<Rightarrow> (string \<Rightarrow> nat \<Rightarrow> 'a) \<Rightarrow> py_error + 'a ReplayBuffer" where
  "ReplayBuffer_init shapes size_in_transitions T junk =
     (if T = 0 then Inl ZeroDivisionError
      else Inr \<lparr>buffer_shapes = shapes, size_buf = size_in_transitions div T, current_size = 0,
                buffers = map (\<lambda>(key, shape).
                    (key, np_empty (size_in_transitions div T) shape (junk key))) shapes,
                T_horizon = T\<rparr>)"

text \<open>
  \<open>_get_storage_idx\<close> of the episode buffer. \<open>draws\<close> is the array returned by the one call
  of \<open>np.random.randint\<close> that the second and the third branch make.
\<close>

definition ReplayBuffer_get_storage_idx ::
  "nat list \<Rightarrow> nat \<Rightarrow> ('a, 'z) ReplayBuffer_scheme \<Rightarrow> py_error + idx \<times> ('a, 'z) ReplayBuffer_scheme" where
  "ReplayBuffer_get_storage_idx draws inc self =
     (if \<not> inc \<le> size_buf self then Inl AssertionError
      else if \<not> inc > 0 then Inl AssertionError
      else
        (let idx =
           (if current_size self + inc \<le> size_buf self
            then [current_size self..<current_size self + inc]
            else if current_size self < size_buf self
            then
              (let idx_a = [current_size self..<size_buf self];
                   idx_b = draws
               in idx_a @ idx_b)
            else draws)
         in Inr (if inc = 1 then Scalar (hd idx) else Array idx, self)))"

definition ReplayBuffer_store_episode ::
  "nat list \<Rightarrow> 'a ndarray pydict \<Rightarrow> ('a, 'z) ReplayBuffer_scheme
   \<Rightarrow> py_error option \<times> ('a, 'z) ReplayBuffer_scheme" where
  "ReplayBuffer_store_episode draws = store_episode (ReplayBuffer_get_storage_idx draws)"

text \<open>
  The draw that \<open>_get_storage_idx\<close> asks of \<open>np.random.randint\<close> in a state, for an
  increment: \<open>overflow\<close> indices below \<open>current_size\<close> in the second branch, \<open>inc\<close> indices
  below \<open>size\<close> in the third, none in the first.
\<close>

definition storage_draws_ok :: "nat list \<Rightarrow> nat \<Rightarrow> ('a, 'z) ReplayBuffer_scheme \<Rightarrow> bool" where
  "storage_draws_ok draws inc self \<longleftrightarrow>
     (if current_size self + inc \<le> size_buf self then True
      else if current_size self < size_buf self
      then randint_contract 0 (current_size self) (inc - (size_buf self - current_size self)) draws
      else randint_contract 0 (size_buf self) inc draws)"

subsection \<open>Loading an archive\<close>








subsection \<open>Sampling from the episode buffer\<close>

text \<open>
  In the episode buffer an entry of a field is an episode: the list of its steps, each
  step the list of its numbers (a row). A step is copied whole from one field to another;
  \<open>ag\<close>, \<open>g\<close> and \<open>g_2\<close> hold goals of one shape, so no broadcasting between rows of
  different shapes is modelled.
\<close>

type_synonym row = "real list"
type_synonym episode = "row list"

fun bind_err :: "py_error + 'a \<Rightarrow> ('a \<Rightarrow> py_error + 'b) \<Rightarrow> py_error + 'b" where
  "bind_err (Inl e) f = Inl e"
| "bind_err (Inr x) f = f x"

text \<open>\<open>arr[:, 1:, :]\<close> and \<open>arr[:, :, :]\<close>: three indices need three dimensions.\<close>

definition slice_next :: "episode ndarray \<Rightarrow> py_error + episode ndarray" where
  "slice_next arr = (if ndim arr < 3 then Inl IndexError else Inr (arr\<lparr>items := map tl (items arr)\<rparr>))"

definition slice_all :: "episode ndarray \<Rightarrow> py_error + episode ndarray" where
  "slice_all arr = (if ndim arr < 3 then Inl IndexError else Inr arr)"

text \<open>
  The three statements that \<open>sample\<close> (and \<open>sample_all\<close>) start with:
  \<open>buffers["o_2"] = buffers["o"][:, 1:, :]\<close>, the same for \<open>ag\<close> if there is such a field,
  and \<open>buffers["g_2"] = buffers["g"][:, :, :]\<close> if there is a field \<open>g\<close>. A new key of a
  \<open>dict\<close> goes to the end, an old one keeps its place.
\<close>

definition add_o_2 :: "episode ndarray pydict \<Rightarrow> py_error + episode ndarray pydict" where
  "add_o_2 bufs =
     (case map_of bufs ''o'' of
        None \<Rightarrow> Inl KeyError
      | Some ob \<Rightarrow> bind_err (slice_next ob) (\<lambda>o_2. Inr (AList.update ''o_2'' o_2 bufs)))"

definition add_ag_2 :: "episode ndarray pydict \<Rightarrow> py_error + episode ndarray pydict" where
  "add_ag_2 bufs =
     (case map_of bufs ''ag'' of
        None \<Rightarrow> Inr bufs
      | Some ag \<Rightarrow> bind_err (slice_next ag) (\<lambda>ag_2. Inr (AList.update ''ag_2'' ag_2 bufs)))"

definition add_g_2 :: "episode ndarray pydict \<Rightarrow> py_error + episode ndarray pydict" where
  "add_g_2 bufs =
     (case map_of bufs ''g'' of
        None \<Rightarrow> Inr bufs
      | Some g \<Rightarrow> bind_err (slice_all g) (\<lambda>g_2. Inr (AList.update ''g_2'' g_2 bufs)))"

text \<open>
  \<open>ReplayBuffer.sample\<close>; the method \<open>sample_transitions\<close> of the subclass is the first
  argument.
\<close>

definition ReplayBuffer_sample ::
  "(episode ndarray pydict \<Rightarrow> nat \<Rightarrow> py_error + row list pydict)
   \<Rightarrow> nat \<Rightarrow> (episode, 'z) ReplayBuffer_scheme \<Rightarrow> py_error + row list pydict" where
  "ReplayBuffer_sample sample_transitions batch_size self =
     (if \<not> current_size self > 0 then Inl AssertionError
      else
        bind_err (add_o_2 (map (\<lambda>(key, arr). (key, arr\<lparr>items := take (current_size self) (items arr)\<rparr>))
                             (buffers self))) (\<lambda>buffers1.
        bind_err (add_ag_2 buffers1) (\<lambda>buffers2.
        bind_err (add_g_2 buffers2) (\<lambda>buffers3.
        bind_err (sample_transitions buffers3 batch_size) (\<lambda>transitions.
          if \<not> list_all (\<lambda>key. key \<in> set (map fst transitions)) (map fst (buffers self))
          then Inl AssertionError
          else Inr transitions)))))"

text \<open>
  The arrays drawn by the calls of \<open>np.random\<close> in \<open>sample_transitions\<close>, in the order of
  the calls. The uniform sampler makes the first two calls only.
\<close>

record sample_draws =
  episode_idxs :: "nat list"
  t_samples :: "nat list"
  her_uniform :: "real list"
  offset_uniform :: "real list"

text \<open>What \<open>np.random.uniform(size=n)\<close> promises: \<open>n\<close> numbers in \<open>[0, 1)\<close>.\<close>

definition uniform_contract :: "nat \<Rightarrow> real list \<Rightarrow> bool" where
  "uniform_contract n us \<longleftrightarrow> length us = n \<and> list_all (\<lambda>u. 0 \<le> u \<and> u < 1) us"

definition sample_draws_ok :: "nat \<Rightarrow> nat \<Rightarrow> nat \<Rightarrow> sample_draws \<Rightarrow> bool" where
  "sample_draws_ok n_episodes T batch_size d \<longleftrightarrow>
     randint_contract 0 n_episodes batch_size (episode_idxs d)
     \<and> randint_contract 0 T batch_size (t_samples d)
     \<and> uniform_contract batch_size (her_uniform d)
     \<and> uniform_contract batch_size (offset_uniform d)"

text \<open>\<open>xs[idxs]\<close> with an index array, for indices in range.\<close>

definition take_idx :: "'a list \<Rightarrow> nat list \<Rightarrow> 'a list" where
  "take_idx xs idxs = map (\<lambda>i. xs ! i) idxs"

text \<open>
  \<open>arr[episode_idxs, t_samples]\<close>: two index arrays need two dimensions, and every pair an
  episode and a step that exist.
\<close>

definition gather_ok :: "'v list ndarray \<Rightarrow> nat list \<Rightarrow> nat list \<Rightarrow> bool" where
  "gather_ok arr es ts \<longleftrightarrow>
     2 \<le> ndim arr
     \<and> list_all (\<lambda>(e, t). e < length (items arr) \<and> t < length (items arr ! e)) (zip es ts)"

definition gather :: "'v list ndarray \<Rightarrow> nat list \<Rightarrow> nat list \<Rightarrow> py_error + 'v list" where
  "gather arr es ts =
     (if gather_ok arr es ts then Inr (map (\<lambda>(e, t). items arr ! e ! t) (zip es ts))
      else Inl IndexError)"

text \<open>\<open>{key: buffers[key][episode_idxs, t_samples].copy() for key in buffers.keys()}\<close>\<close>

definition gather_fields ::
  "'v list ndarray pydict \<Rightarrow> nat list \<Rightarrow> nat list \<Rightarrow> py_error + 'v list pydict" where
  "gather_fields bufs es ts =
     (if list_all (\<lambda>(key, arr). gather_ok arr es ts) bufs
      then Inr (map (\<lambda>(key, arr). (key, map (\<lambda>(e, t). items arr ! e ! t) (zip es ts))) bufs)
      else Inl IndexError)"

text \<open>
  \<open>{k: transitions[k].reshape(batch_size, *transitions[k].shape[1:])}\<close> leaves an array of
  \<open>batch_size\<close> entries as it is and raises for any other (non-empty) array.
\<close>

definition reshape_fields :: "nat \<Rightarrow> 'v list pydict \<Rightarrow> py_error + 'v list pydict" where
  "reshape_fields batch_size transitions =
     (if list_all (\<lambda>(k, v). length v = batch_size) transitions then Inr transitions
      else Inl ValueError)"

text \<open>
  The first two lines of both samplers: \<open>buffers["u"].shape[0]\<close>, and the two calls of
  \<open>randint\<close>, which raise when the range is empty.
\<close>

definition draw_check :: "nat \<Rightarrow> 'v ndarray pydict \<Rightarrow> py_error + unit" where
  "draw_check T bufs =
     (case map_of bufs ''u'' of
        None \<Rightarrow> Inl KeyError
      | Some u \<Rightarrow> if length (items u) = 0 then Inl ValueError
                  else if T = 0 then Inl ValueError else Inr ())"

definition UniformReplayBuffer_sample_transitions ::
  "nat \<Rightarrow> sample_draws \<Rightarrow> 'v list ndarray pydict \<Rightarrow> nat \<Rightarrow> py_error + 'v list pydict" where
  "UniformReplayBuffer_sample_transitions T d bufs batch_size =
     bind_err (draw_check T bufs) (\<lambda>_.
     bind_err (gather_fields bufs (episode_idxs d) (t_samples d)) (\<lambda>transitions.
     bind_err (reshape_fields batch_size transitions) (\<lambda>transitions.
       case map_of transitions ''u'' of
         None \<Rightarrow> Inl KeyError
       | Some u \<Rightarrow> if length u \<noteq> batch_size then Inl AssertionError else Inr transitions)))"

text \<open>\<open>self.future_p = 1 - (1.0 / (1 + k))\<close>, for the integer \<open>k\<close>.\<close>

definition HERReplayBuffer_future_p :: "int \<Rightarrow> py_error + real" where
  "HERReplayBuffer_future_p k =
     (if 1 + k = 0 then Inl ZeroDivisionError else Inr (1 - 1 / real_of_int (1 + k)))"

text \<open>\<open>np.where(np.random.uniform(size=batch_size) < self.future_p)\<close>\<close>

definition her_indexes_of :: "real \<Rightarrow> real list \<Rightarrow> nat list" where
  "her_indexes_of future_p us = filter (\<lambda>i. us ! i < future_p) [0..<length us]"

text \<open>
  \<open>(np.random.uniform(size=batch_size) * (self.T - t_samples)).astype(int)\<close>: the product
  is not negative, as \<open>t_samples\<close> are below \<open>T\<close>, so the conversion rounds down.
\<close>

definition future_offset_of :: "nat \<Rightarrow> real list \<Rightarrow> nat list \<Rightarrow> nat list" where
  "future_offset_of T us ts = map (\<lambda>(u, t). nat \<lfloor>u * real (T - t)\<rfloor>) (zip us ts)"

text \<open>\<open>transitions[key][her_indexes] = value\<close>\<close>

definition set_rows :: "string \<Rightarrow> nat list \<Rightarrow> 'v list \<Rightarrow> 'v list pydict \<Rightarrow> py_error + 'v list pydict" where
  "set_rows key idxs val transitions =
     (case map_of transitions key of
        None \<Rightarrow> Inl KeyError
      | Some rows \<Rightarrow>
          if \<not> list_all (\<lambda>i. i < length rows) idxs then Inl IndexError
          else Inr (AList.update key (scatter rows idxs val) transitions))"

text \<open>\<open>key.replace("info_", "")\<close>: every occurrence is removed, from left to right.\<close>

fun replace_info :: "string \<Rightarrow> string" where
  "replace_info [] = []"
| "replace_info (c # cs) =
     (if take 5 (c # cs) = ''info_'' then replace_info (drop 4 cs) else c # replace_info cs)"

text \<open>
  The loop that rebuilds the \<open>info\<close> dictionary from the fields whose name starts with
  \<open>info_\<close>.
\<close>

definition build_info :: "'v pydict \<Rightarrow> 'v pydict" where
  "build_info transitions =
     fold (\<lambda>(key, val) info.
             if take 5 key = ''info_'' then AList.update (replace_info key) val info else info)
          transitions []"

text \<open>
  \<open>HERReplayBuffer.sample_transitions\<close>, in three parts. The first is the relabelling
  (from \<open>her_indexes = ...\<close> to the update of \<open>q\<close>): the goals achieved at \<open>future_t\<close> are
  written over the rows \<open>her_indexes\<close> of \<open>g\<close> and \<open>g_2\<close>, and \<open>-100\<close> over those of \<open>q\<close> when
  there is such a field.
\<close>

definition her_relabel ::
  "real \<Rightarrow> nat \<Rightarrow> sample_draws \<Rightarrow> episode ndarray pydict \<Rightarrow> row list pydict
   \<Rightarrow> py_error + row list pydict" where
  "her_relabel future_p T d bufs transitions =
     (let her_indexes = her_indexes_of future_p (her_uniform d);
          future_offset = future_offset_of T (offset_uniform d) (t_samples d);
          future_t = take_idx (map (\<lambda>(t, off). t + 1 + off) (zip (t_samples d) future_offset))
                              her_indexes
      in case map_of bufs ''ag'' of
           None \<Rightarrow> Inl KeyError
         | Some ag \<Rightarrow>
             bind_err (gather ag (take_idx (episode_idxs d) her_indexes) future_t) (\<lambda>future_ag.
             bind_err (set_rows ''g'' her_indexes future_ag transitions) (\<lambda>transitions1.
             bind_err (set_rows ''g_2'' her_indexes future_ag transitions1) (\<lambda>transitions2.
               case map_of transitions2 ''q'' of
                 None \<Rightarrow> Inr transitions2
               | Some q \<Rightarrow>
                   set_rows ''q'' her_indexes
                     (map (map (\<lambda>_. - 100)) (take_idx q her_indexes)) transitions2))))"

text \<open>
  The second part rebuilds \<open>info\<close>, computes the reward and reshapes. \<open>reward_fun\<close> returns
  the rewards as the flat list of the numbers of its array; \<open>reshape(-1, 1)\<close> makes each a
  row of its own.
\<close>

definition her_reward ::
  "(row list \<Rightarrow> row list \<Rightarrow> row list pydict \<Rightarrow> real list) \<Rightarrow> nat \<Rightarrow> row list pydict
   \<Rightarrow> py_error + row list pydict" where
  "her_reward reward_fun batch_size transitions =
     (let info = build_info transitions
      in case map_of transitions ''ag_2'' of
           None \<Rightarrow> Inl KeyError
         | Some ag_2 \<Rightarrow>
             (case map_of transitions ''g_2'' of
                None \<Rightarrow> Inl KeyError
              | Some g_2 \<Rightarrow>
                  bind_err (reshape_fields batch_size
                             (AList.update ''r'' (map (\<lambda>x. [x]) (reward_fun ag_2 g_2 info))
                                transitions)) (\<lambda>transitions1.
                    case map_of transitions1 ''u'' of
                      None \<Rightarrow> Inl KeyError
                    | Some u \<Rightarrow> if length u \<noteq> batch_size then Inl AssertionError
                                else Inr transitions1)))"

definition HERReplayBuffer_sample_transitions ::
  "real \<Rightarrow> (row list \<Rightarrow> row list \<Rightarrow> row list pydict \<Rightarrow> real list)
   \<Rightarrow> nat \<Rightarrow> sample_draws \<Rightarrow> episode ndarray pydict \<Rightarrow> nat \<Rightarrow> py_error + row list pydict" where
  "HERReplayBuffer_sample_transitions future_p reward_fun T d bufs batch_size =
     bind_err (draw_check T bufs) (\<lambda>_.
     bind_err (gather_fields bufs (episode_idxs d) (t_samples d)) (\<lambda>transitions.
     bind_err (her_relabel future_p T d bufs transitions) (\<lambda>transitions1.
       her_reward reward_fun batch_size transitions1)))"

text \<open>\<open>sample\<close> of the two subclasses, for a buffer with horizon \<open>T\<close>.\<close>

definition UniformReplayBuffer_sample ::
  "sample_draws \<Rightarrow> nat \<Rightarrow> (episode, 'z) ReplayBuffer_scheme \<Rightarrow> py_error + row list pydict" where
  "UniformReplayBuffer_sample d batch_size self =
     ReplayBuffer_sample (UniformReplayBuffer_sample_transitions (T_horizon self) d) batch_size self"

definition HERReplayBuffer_sample ::
  "real \<Rightarrow> (row list \<Rightarrow> row list \<Rightarrow> row list pydict \<Rightarrow> real list) \<Rightarrow> sample_draws \<Rightarrow> nat
   \<Rightarrow> (episode, 'z) ReplayBuffer_scheme \<Rightarrow> py_error + row list pydict" where
  "HERReplayBuffer_sample future_p reward_fun d batch_size self =
     ReplayBuffer_sample
       (HERReplayBuffer_sample_transitions future_p reward_fun (T_horizon self) d) batch_size self"

subsection \<open>Notions used in the statements\<close>

text \<open>The slots that an index names.\<close>

fun idx_set :: "idx \<Rightarrow> nat set" where
  "idx_set (Scalar i) = {i}"
| "idx_set (Array is) = set is"

text \<open>The number of slots that an index names, counted with repetitions.\<close>

fun idx_len :: "idx \<Rightarrow> nat" where
  "idx_len (Scalar i) = 1"
| "idx_len (Array is) = length is"

text \<open>
  The checks that \<open>store_episode\<close> and \<open>_get_storage_idx\<close> make before anything is
  written: the batch has a field, all its fields have the same leading dimension, and
  that dimension is positive and at most the capacity.
\<close>

definition batch_checks_ok :: "'a ndarray pydict \<Rightarrow> ('a, 'z) ReplayBufferBase_scheme \<Rightarrow> bool" where
  "batch_checks_ok episode_batch self \<longleftrightarrow>
     episode_batch \<noteq> []
     \<and> list_all (\<lambda>(key, val). length (items val) = batch_size_of episode_batch) episode_batch
     \<and> 0 < batch_size_of episode_batch \<and> batch_size_of episode_batch \<le> size_buf self"

text \<open>
  A field is written to: its array after the call is the one before with the batch's
  array of that field stored at the indices.
\<close>

definition field_written ::
  "idx \<Rightarrow> 'a ndarray pydict \<Rightarrow> string \<times> 'a ndarray \<Rightarrow> string \<times> 'a ndarray \<Rightarrow> bool" where
  "field_written idxs episode_batch before after \<longleftrightarrow>
     fst after = fst before
     \<and> (case map_of episode_batch (fst before) of
           None \<Rightarrow> False
         | Some val \<Rightarrow> setitem (snd before) idxs val = Inr (snd after))"

text \<open>
  Every array of the buffer has \<open>size\<close> entries; the batch has an array for every field
  of the buffer.
\<close>

definition arrays_sized :: "('a, 'z) ReplayBufferBase_scheme \<Rightarrow> bool" where
  "arrays_sized self \<longleftrightarrow> list_all (\<lambda>(k, arr). length (items arr) = size_buf self) (buffers self)"

definition holds_every_field :: "'a ndarray pydict \<Rightarrow> ('a, 'z) ReplayBufferBase_scheme \<Rightarrow> bool" where
  "holds_every_field episode_batch self \<longleftrightarrow>
     list_all (\<lambda>(k, arr). map_of episode_batch k \<noteq> None) (buffers self)"

text \<open>
  A buffer as the constructors and \<open>store_episode\<close> leave it, for a schema: one array per
  schema field, in the schema's order, of \<open>size\<close> entries and of the schema's dimensions
  plus one; no more valid entries than \<open>size\<close>. The keys of a \<open>dict\<close> are distinct.
\<close>

definition buffer_wf :: "nat list pydict \<Rightarrow> ('a, 'z) ReplayBufferBase_scheme \<Rightarrow> bool" where
  "buffer_wf shapes self \<longleftrightarrow>
     distinct (map fst shapes) \<and> buffer_shapes self = shapes
     \<and> map fst (buffers self) = map fst shapes
     \<and> map (\<lambda>(k, arr). ndim arr) (buffers self) = map (\<lambda>(k, shape). 1 + length shape) shapes
     \<and> list_all (\<lambda>(k, arr). length (items arr) = size_buf self) (buffers self)
     \<and> current_size self \<le> size_buf self"

text \<open>
  A sequence of calls of a store method, one after the other, up to the first that
  raises.
\<close>

fun store_all :: "('b \<Rightarrow> 's \<Rightarrow> py_error option \<times> 's) \<Rightarrow> 'b list \<Rightarrow> 's \<Rightarrow> py_error option \<times> 's" where
  "store_all store [] s = (None, s)"
| "store_all store (b # bs) s =
     (case store b s of
        (Some e, s') \<Rightarrow> (Some e, s')
      | (None, s') \<Rightarrow> store_all store bs s')"

text \<open>
  Two states of a buffer agree on the first \<open>n\<close> slots of every field.
\<close>

definition same_prefix ::
  "nat \<Rightarrow> ('a, 'z) ReplayBufferBase_scheme \<Rightarrow> ('a, 'z) ReplayBufferBase_scheme \<Rightarrow> bool" where
  "same_prefix n self self' \<longleftrightarrow>
     list_all2 (\<lambda>b b'. fst b' = fst b \<and> length (items (snd b')) = length (items (snd b))
                  \<and> (\<forall>j < n. items (snd b') ! j = items (snd b) ! j))
               (buffers self) (buffers self')"

text \<open>
  A batch of one transition for a schema: it has fields, each of one entry, and among
  them every field of the schema.
\<close>

definition is_transition_for :: "nat list pydict \<Rightarrow> 'a ndarray pydict \<Rightarrow> bool" where
  "is_transition_for shapes transition_batch \<longleftrightarrow>
     transition_batch \<noteq> []
     \<and> list_all (\<lambda>(k, v). length (items v) = 1) transition_batch
     \<and> list_all (\<lambda>k. map_of transition_batch k \<noteq> None) (map fst shapes)"

subsection \<open>Concrete buffers for the examples\<close>

text \<open>A ring buffer of two transitions with the fields \<open>o\<close> and \<open>done\<close>.\<close>

definition ex_ring_shapes :: "nat list pydict" where
  "ex_ring_shapes = [(''o'', [1]), (''done'', [1])]"

definition ex_ring0 :: "real list RingReplayBuffer" where
  "ex_ring0 = RingReplayBuffer_init ex_ring_shapes 2 (\<lambda>_ _. [])"

definition ex_transition :: "real \<Rightarrow> real \<Rightarrow> real list ndarray pydict" where
  "ex_transition x dn =
     [(''o'', \<lparr>ndim = 2, items = [[x]]\<rparr>), (''done'', \<lparr>ndim = 2, items = [[dn]]\<rparr>)]"




text \<open>
  An episode buffer with horizon 2 and room for two episodes, with the fields \<open>o\<close>, \<open>u\<close>,
  \<open>ag\<close>, \<open>g\<close> and \<open>r\<close>; \<open>ex_episodes xs\<close> is a batch of one episode per number in \<open>xs\<close>,
  the observations and achieved goals counting up from that number.
\<close>

definition ex_eps_shapes :: "nat list pydict" where
  "ex_eps_shapes = [(''o'', [3, 1]), (''u'', [2, 1]), (''ag'', [3, 1]), (''g'', [2, 1]), (''r'', [2, 1])]"

definition ex_eps0 :: "episode ReplayBuffer" where
  "ex_eps0 = \<lparr>buffer_shapes = ex_eps_shapes, size_buf = 2, current_size = 0,
              buffers = map (\<lambda>(key, shape). (key, np_empty 2 shape (\<lambda>_. []))) ex_eps_shapes,
              T_horizon = 2\<rparr>"

definition ex_episodes :: "real list \<Rightarrow> episode ndarray pydict" where
  "ex_episodes xs =
     [(''o'', \<lparr>ndim = 3, items = map (\<lambda>x. [[x], [x + 1], [x + 2]]) xs\<rparr>),
      (''u'', \<lparr>ndim = 3, items = map (\<lambda>x. [[0], [0]]) xs\<rparr>),
      (''ag'', \<lparr>ndim = 3, items = map (\<lambda>x. [[x], [x + 1], [x + 2]]) xs\<rparr>),
      (''g'', \<lparr>ndim = 3, items = map (\<lambda>x. [[x + 9], [x + 9]]) xs\<rparr>),
      (''r'', \<lparr>ndim = 3, items = map (\<lambda>x. [[5], [5]]) xs\<rparr>)]"

text \<open>The episode buffer \<open>ex_eps0\<close> after one episode has been stored.\<close>

definition ex_eps1 :: "episode ReplayBuffer" where
  "ex_eps1 = snd (ReplayBuffer_store_episode [] (ex_episodes [1]) ex_eps0)"

text \<open>
  What \<open>sample\<close> hands to \<open>sample_transitions\<close> for the buffer \<open>ex_eps1\<close> (one episode of
  horizon 2), draws for a batch of two records at the timesteps 0 and 1 of which the
  first is selected for relabelling when \<open>future_p = 4/5\<close>, and a sparse reward.
\<close>

definition ex_her_bufs :: "episode ndarray pydict" where
  "ex_her_bufs =
     [(''o'', \<lparr>ndim = 3, items = [[[1], [2], [3]]]\<rparr>),
      (''u'', \<lparr>ndim = 3, items = [[[0], [0]]]\<rparr>),
      (''ag'', \<lparr>ndim = 3, items = [[[1], [2], [3]]]\<rparr>),
      (''g'', \<lparr>ndim = 3, items = [[[10], [10]]]\<rparr>),
      (''r'', \<lparr>ndim = 3, items = [[[5], [5]]]\<rparr>),
      (''o_2'', \<lparr>ndim = 3, items = [[[2], [3]]]\<rparr>),
      (''ag_2'', \<lparr>ndim = 3, items = [[[2], [3]]]\<rparr>),
      (''g_2'', \<lparr>ndim = 3, items = [[[10], [10]]]\<rparr>)]"

definition ex_draws :: sample_draws where
  "ex_draws = \<lparr>episode_idxs = [0, 0], t_samples = [0, 1],
               her_uniform = [1 / 10, 9 / 10], offset_uniform = [3 / 4, 1 / 2]\<rparr>"

definition ex_reward :: "row list \<Rightarrow> row list \<Rightarrow> row list pydict \<Rightarrow> real list" where
  "ex_reward ag_2 g_2 info = map (\<lambda>(a, g). if a = g then 0 else - 1) (zip ag_2 g_2)"

text \<open>
  The buffers \<open>ex_her_bufs\<close> with one more field, \<open>info_a_info_b\<close>, and a reward function
  that looks into \<open>info\<close> for the key \<open>a_info_b\<close>, the name of that field without its
  prefix: the reward is 1 if the key is there and 0 if not.
\<close>

definition ex_info_bufs :: "episode ndarray pydict" where
  "ex_info_bufs = ex_her_bufs @ [(''info_a_info_b'', \<lparr>ndim = 3, items = [[[1], [1]]]\<rparr>)]"

definition ex_info_reward :: "row list \<Rightarrow> row list \<Rightarrow> row list pydict \<Rightarrow> real list" where
  "ex_info_reward ag_2 g_2 info = map (\<lambda>_. if map_of info ''a_info_b'' = None then 0 else 1) ag_2"

section \<open>Properties\<close>

subsection \<open>Helper lemmas on \<open>store_episode\<close>\<close>

lemma store_episode_current_size:
  assumes "store_episode gsi episode_batch self = (None, self')"
    and "\<And>inc s i s'. gsi inc s = Inr (i, s') \<Longrightarrow> size_buf s' = size_buf s \<and> current_size s' = current_size s"
  shows "current_size self' = min (size_buf self) (current_size self + batch_size_of episode_batch)
         \<and> size_buf self' = size_buf self"
proof (cases episode_batch)
  case Nil
  with assms(1) show ?thesis by (simp add: store_episode_def)
next
  case (Cons p rest)
  obtain k first where p: "p = (k, first)" by (cases p)
  let ?n = "length (items first)"
  from assms(1) Cons p obtain i s1 where g: "gsi ?n self = Inr (i, s1)"
    by (auto simp: store_episode_def Let_def split: if_splits sum.splits)
  from assms(2)[OF g] have eq: "size_buf s1 = size_buf self" "current_size s1 = current_size self"
    by simp_all
  from assms(1) Cons p g obtain bufs where
    "self' = s1\<lparr>buffers := bufs, current_size := min (size_buf s1) (current_size s1 + ?n)\<rparr>"
    by (auto simp: store_episode_def Let_def split: if_splits sum.splits prod.splits option.splits)
  with eq Cons p show ?thesis by (simp add: batch_size_of_def)
qed

lemma Ring_gsi_sizes:
  "RingReplayBuffer_get_storage_idx inc s = Inr (i, s') \<Longrightarrow>
     size_buf s' = size_buf s \<and> current_size s' = current_size s"
  by (auto simp: RingReplayBuffer_get_storage_idx_def Let_def split: if_splits)

lemma Episode_gsi_sizes:
  "ReplayBuffer_get_storage_idx draws inc s = Inr (i, s') \<Longrightarrow>
     size_buf s' = size_buf s \<and> current_size s' = current_size s"
  by (auto simp: ReplayBuffer_get_storage_idx_def Let_def split: if_splits)

subsection \<open>C8: the fill count after a store\<close>

text \<open>
  C8. For every store that returns normally, on the ring buffer and on the episode buffer
  (whatever the random indices drawn), \<open>current_size\<close> after the call is
  \<open>min(capacity, current_size_before + batch_size)\<close>, where \<open>batch_size\<close> is the leading
  dimension of the batch; so \<open>current_size\<close> does not exceed the capacity.
\<close>

theorem C8_current_size_after_store:
  "(RingReplayBuffer_store_episode transition_batch ring = (None, ring') \<longrightarrow>
      current_size ring' = min (size_buf ring) (current_size ring + batch_size_of transition_batch)
      \<and> size_buf ring' = size_buf ring \<and> current_size ring' \<le> size_buf ring')
   \<and> (ReplayBuffer_store_episode draws episode_batch eps = (None, eps') \<longrightarrow>
      current_size eps' = min (size_buf eps) (current_size eps + batch_size_of episode_batch)
      \<and> size_buf eps' = size_buf eps \<and> current_size eps' \<le> size_buf eps')"
proof (intro conjI impI)
  assume a: "RingReplayBuffer_store_episode transition_batch ring = (None, ring')"
  have "current_size ring' = min (size_buf ring) (current_size ring + batch_size_of transition_batch)
        \<and> size_buf ring' = size_buf ring"
    using a Ring_gsi_sizes unfolding RingReplayBuffer_store_episode_def
    by (rule store_episode_current_size)
  then show "current_size ring' = min (size_buf ring) (current_size ring + batch_size_of transition_batch)"
    "size_buf ring' = size_buf ring" "current_size ring' \<le> size_buf ring'"
    by simp_all
next
  assume a: "ReplayBuffer_store_episode draws episode_batch eps = (None, eps')"
  have "current_size eps' = min (size_buf eps) (current_size eps + batch_size_of episode_batch)
        \<and> size_buf eps' = size_buf eps"
    using a Episode_gsi_sizes unfolding ReplayBuffer_store_episode_def
    by (rule store_episode_current_size)
  then show "current_size eps' = min (size_buf eps) (current_size eps + batch_size_of episode_batch)"
    "size_buf eps' = size_buf eps" "current_size eps' \<le> size_buf eps'"
    by simp_all
qed

theorem C8_current_size_witness:
  "RingReplayBuffer_store_episode (ex_transition 7 1) ex_ring0
     = (None, snd (RingReplayBuffer_store_episode (ex_transition 7 1) ex_ring0))
   \<and> current_size (snd (RingReplayBuffer_store_episode (ex_transition 7 1) ex_ring0)) = 1
   \<and> ReplayBuffer_store_episode [] (ex_episodes [1, 4]) ex_eps0
     = (None, snd (ReplayBuffer_store_episode [] (ex_episodes [1, 4]) ex_eps0))
   \<and> current_size (snd (ReplayBuffer_store_episode [] (ex_episodes [1, 4]) ex_eps0)) = 2"
proof -
  have r: "RingReplayBuffer_store_episode (ex_transition 7 1) ex_ring0
     = (None, snd (RingReplayBuffer_store_episode (ex_transition 7 1) ex_ring0))"
    by (simp add: RingReplayBuffer_store_episode_def store_episode_def ex_transition_def
        ex_ring0_def RingReplayBuffer_init_def ex_ring_shapes_def np_empty_def
        RingReplayBuffer_get_storage_idx_def setitem_def upt_conv_Cons)
  have e: "ReplayBuffer_store_episode [] (ex_episodes [1, 4]) ex_eps0
     = (None, snd (ReplayBuffer_store_episode [] (ex_episodes [1, 4]) ex_eps0))"
    by (simp add: ReplayBuffer_store_episode_def store_episode_def ex_episodes_def
        ex_eps0_def ex_eps_shapes_def np_empty_def
        ReplayBuffer_get_storage_idx_def setitem_def upt_conv_Cons)
  have s: "size_buf ex_ring0 = 2" "current_size ex_ring0 = 0"
    "batch_size_of (ex_transition 7 1) = 1"
    "size_buf ex_eps0 = 2" "current_size ex_eps0 = 0" "batch_size_of (ex_episodes [1, 4]) = 2"
    by (simp_all add: ex_ring0_def RingReplayBuffer_init_def ex_eps0_def batch_size_of_def
         ex_transition_def ex_episodes_def)
  from C8_current_size_after_store [where transition_batch = "ex_transition 7 1"
      and ring = ex_ring0 and draws = "[]" and episode_batch = "ex_episodes [1, 4]"
      and eps = ex_eps0] r e s
  show ?thesis by simp
qed

subsection \<open>C10: \<open>num_demo = 0\<close> in \<open>RingReplayBuffer.load_from_file\<close>\<close>









subsection \<open>Helper lemmas on index assignment\<close>

lemma scatter_length [simp]: "length (scatter xs is vs) = length xs"
  by (induction xs "is" vs rule: scatter.induct) simp_all

lemma scatter_nth_other: "j \<notin> set is \<Longrightarrow> scatter xs is vs ! j = xs ! j"
  by (induction xs "is" vs rule: scatter.induct) simp_all

lemma setitem_Inr:
  assumes "setitem arr idxs val = Inr arr'"
  shows "ndim arr' = ndim arr" and "length (items arr') = length (items arr)"
    and "j \<notin> idx_set idxs \<Longrightarrow> items arr' ! j = items arr ! j"
    and "\<forall>i \<in> idx_set idxs. i < length (items arr)"
proof -
  show "ndim arr' = ndim arr" "length (items arr') = length (items arr)"
    using assms by (auto simp: setitem_def split: idx.splits if_splits list.splits)
  show "j \<notin> idx_set idxs \<Longrightarrow> items arr' ! j = items arr ! j"
    using assms by (auto simp: setitem_def scatter_nth_other split: idx.splits if_splits list.splits)
  show "\<forall>i \<in> idx_set idxs. i < length (items arr)"
    using assms by (auto simp: setitem_def list_all_iff split: idx.splits if_splits list.splits)
qed

lemma store_fields_rel:
  "store_fields bufs idxs eb = (r, bufs') \<Longrightarrow>
     list_all2 (\<lambda>b b'. b' = b \<or> field_written idxs eb b b') bufs bufs'"
proof (induction bufs arbitrary: r bufs')
  case Nil
  then show ?case by simp
next
  case (Cons b bufs)
  obtain key arr where b: "b = (key, arr)" by (cases b)
  show ?case
  proof (cases "map_of eb key")
    case None
    with Cons.prems b show ?thesis by (auto simp: list_all2_same list.rel_refl)
  next
    case (Some val)
    show ?thesis
    proof (cases "setitem arr idxs val")
      case (Inl e)
      with Cons.prems b Some show ?thesis by (auto simp: list.rel_refl)
    next
      case (Inr arr')
      obtain r0 rest' where st: "store_fields bufs idxs eb = (r0, rest')"
        by (cases "store_fields bufs idxs eb")
      have "field_written idxs eb (key, arr) (key, arr')"
        using Some Inr by (simp add: field_written_def)
      with Cons.IH[OF st] Cons.prems b Some Inr st show ?thesis
        by auto
    qed
  qed
qed

lemma store_fields_ok:
  "\<forall>(key, arr) \<in> set bufs. \<exists>val arr'. map_of eb key = Some val \<and> setitem arr idxs val = Inr arr'
   \<Longrightarrow> \<exists>bufs'. store_fields bufs idxs eb = (None, bufs')
          \<and> list_all2 (field_written idxs eb) bufs bufs'"
proof (induction bufs)
  case Nil
  then show ?case by simp
next
  case (Cons b bufs)
  obtain key arr where b: "b = (key, arr)" by (cases b)
  from Cons.prems b obtain val arr' where v: "map_of eb key = Some val" "setitem arr idxs val = Inr arr'"
    by auto
  from Cons.prems have "\<forall>(key, arr) \<in> set bufs. \<exists>val arr'. map_of eb key = Some val \<and> setitem arr idxs val = Inr arr'"
    by simp
  from Cons.IH[OF this] obtain rest' where r: "store_fields bufs idxs eb = (None, rest')"
    "list_all2 (field_written idxs eb) bufs rest'" by blast
  have "field_written idxs eb (key, arr) (key, arr')"
    using v by (simp add: field_written_def)
  with b v r show ?case by simp
qed

lemma store_fields_None:
  "store_fields bufs idxs eb = (None, bufs') \<Longrightarrow> list_all2 (field_written idxs eb) bufs bufs'"
proof (induction bufs arbitrary: bufs')
  case Nil
  then show ?case by simp
next
  case (Cons b bufs)
  obtain key arr where b: "b = (key, arr)" by (cases b)
  from Cons.prems b obtain val arr' rest' where
    v: "map_of eb key = Some val" "setitem arr idxs val = Inr arr'"
       "store_fields bufs idxs eb = (None, rest')" "bufs' = (key, arr') # rest'"
    by (auto split: option.splits sum.splits prod.splits)
  have "field_written idxs eb (key, arr) (key, arr')"
    using v by (simp add: field_written_def)
  with Cons.IH[OF v(3)] v b show ?case by simp
qed

subsection \<open>C3: sequential fill of the episode buffer\<close>

lemma same_prefix_refl: "same_prefix n s s"
  by (auto simp: same_prefix_def list_all2_same)

lemma same_prefix_trans:
  assumes "same_prefix n s1 s2" and "same_prefix m s2 s3" and "n \<le> m"
  shows "same_prefix n s1 s3"
  using assms unfolding same_prefix_def list_all2_conv_all_nth
  by auto

lemma Episode_gsi_sequential:
  assumes "current_size self + inc \<le> size_buf self" and "0 < inc"
  shows "\<exists>idxs. ReplayBuffer_get_storage_idx draws inc self = Inr (idxs, self)
           \<and> idx_set idxs = {current_size self..<current_size self + inc}"
proof (cases "inc = 1")
  case True
  then have "ReplayBuffer_get_storage_idx draws inc self = Inr (Scalar (current_size self), self)"
    using assms by (simp add: ReplayBuffer_get_storage_idx_def upt_conv_Cons)
  with True show ?thesis by auto
next
  case False
  then have "ReplayBuffer_get_storage_idx draws inc self
      = Inr (Array [current_size self..<current_size self + inc], self)"
    using assms by (simp add: ReplayBuffer_get_storage_idx_def)
  then show ?thesis by auto
qed

lemma field_written_prefix:
  assumes "b' = b \<or> field_written idxs eb b b'" and "\<forall>i \<in> idx_set idxs. n \<le> i"
  shows "fst b' = fst b \<and> length (items (snd b')) = length (items (snd b))
         \<and> (\<forall>j < n. items (snd b') ! j = items (snd b) ! j)"
proof (cases "b' = b")
  case True
  then show ?thesis by simp
next
  case False
  with assms(1) obtain val where v: "fst b' = fst b" "setitem (snd b) idxs val = Inr (snd b')"
    by (auto simp: field_written_def split: option.splits)
  have "\<forall>j < n. j \<notin> idx_set idxs" using assms(2) by auto
  with setitem_Inr(2,3)[OF v(2)] v(1) show ?thesis by simp
qed

lemma store_episode_same_prefix:
  assumes st: "store_episode gsi episode_batch self = (r, self')"
    and g: "\<And>idxs s. gsi (batch_size_of episode_batch) self = Inr (idxs, s)
              \<Longrightarrow> buffers s = buffers self \<and> (\<forall>i \<in> idx_set idxs. n \<le> i)"
  shows "same_prefix n self self'"
proof (cases episode_batch)
  case Nil
  with st show ?thesis by (simp add: store_episode_def same_prefix_refl)
next
  case (Cons p rest)
  obtain k first where p: "p = (k, first)" by (cases p)
  have bs: "batch_size_of episode_batch = length (items first)"
    using Cons p by (simp add: batch_size_of_def)
  show ?thesis
  proof (cases "list_all (\<lambda>(key, val). length (items val) = length (items first)) episode_batch")
    case False
    with st Cons p have "self' = self" by (simp add: store_episode_def)
    then show ?thesis by (simp add: same_prefix_refl)
  next
    case True
    show ?thesis
    proof (cases "gsi (length (items first)) self")
      case (Inl e)
      with st Cons p True have "self' = self" by (simp add: store_episode_def)
      then show ?thesis by (simp add: same_prefix_refl)
    next
      case (Inr q)
      obtain idxs s1 where q: "q = (idxs, s1)" by (cases q)
      from g[of idxs s1] Inr q bs have b1: "buffers s1 = buffers self" "\<forall>i \<in> idx_set idxs. n \<le> i"
        by simp_all
      obtain r0 bufs where sf: "store_fields (buffers s1) idxs episode_batch = (r0, bufs)"
        by (cases "store_fields (buffers s1) idxs episode_batch")
      have bf: "buffers self' = bufs"
        using st Cons p True Inr q sf by (cases r0) (auto simp: store_episode_def)
      have "list_all2 (\<lambda>b b'. b' = b \<or> field_written idxs episode_batch b b') (buffers self) bufs"
        using store_fields_rel[OF sf] b1 by simp
      then have "list_all2 (\<lambda>b b'. fst b' = fst b \<and> length (items (snd b')) = length (items (snd b))
         \<and> (\<forall>j < n. items (snd b') ! j = items (snd b) ! j)) (buffers self) bufs"
        by (rule list_all2_mono) (rule field_written_prefix, assumption, rule b1(2))
      then show ?thesis
        unfolding same_prefix_def bf .
    qed
  qed
qed

lemma Episode_store_current_size:
  assumes "ReplayBuffer_store_episode draws eb s = (None, s')"
  shows "current_size s' = min (size_buf s) (current_size s + batch_size_of eb)"
    and "size_buf s' = size_buf s"
proof -
  have "current_size s' = min (size_buf s) (current_size s + batch_size_of eb) \<and> size_buf s' = size_buf s"
    using assms Episode_gsi_sizes unfolding ReplayBuffer_store_episode_def
    by (rule store_episode_current_size)
  then show "current_size s' = min (size_buf s) (current_size s + batch_size_of eb)"
    "size_buf s' = size_buf s" by simp_all
qed

lemma Episode_store_same_prefix:
  assumes "current_size self + batch_size_of eb \<le> size_buf self"
    and "ReplayBuffer_store_episode draws eb self = (r, self')"
  shows "same_prefix (current_size self) self self'"
proof (cases "0 < batch_size_of eb")
  case True
  show ?thesis
  proof (rule store_episode_same_prefix[OF assms(2)[unfolded ReplayBuffer_store_episode_def]])
    fix idxs s
    assume a: "ReplayBuffer_get_storage_idx draws (batch_size_of eb) self = Inr (idxs, s)"
    from Episode_gsi_sequential[OF assms(1) True, of draws] a
    show "buffers s = buffers self \<and> (\<forall>i \<in> idx_set idxs. current_size self \<le> i)"
      by auto
  qed
next
  case False
  show ?thesis
  proof (rule store_episode_same_prefix[OF assms(2)[unfolded ReplayBuffer_store_episode_def]])
    fix idxs s
    assume a: "ReplayBuffer_get_storage_idx draws (batch_size_of eb) self = Inr (idxs, s)"
    with False show "buffers s = buffers self \<and> (\<forall>i \<in> idx_set idxs. current_size self \<le> i)"
      by (simp add: ReplayBuffer_get_storage_idx_def)
  qed
qed

lemma Episode_store_all_same_prefix:
  assumes "current_size self + sum_list (map (\<lambda>(d, eb). batch_size_of eb) bs) \<le> size_buf self"
    and "store_all (\<lambda>(d, eb). ReplayBuffer_store_episode d eb) bs self = (r, self')"
  shows "same_prefix (current_size self) self self'"
  using assms
proof (induction bs arbitrary: self)
  case Nil
  then show ?case by (simp add: same_prefix_refl)
next
  case (Cons b bs)
  obtain d eb where b: "b = (d, eb)" by (cases b)
  obtain r1 s1 where s1: "ReplayBuffer_store_episode d eb self = (r1, s1)"
    by (cases "ReplayBuffer_store_episode d eb self")
  from Cons.prems(1) b have le: "current_size self + batch_size_of eb \<le> size_buf self" by simp
  have p1: "same_prefix (current_size self) self s1"
    using le s1 by (rule Episode_store_same_prefix)
  show ?case
  proof (cases r1)
    case (Some e)
    with Cons.prems(2) b s1 have "self' = s1" by simp
    with p1 show ?thesis by simp
  next
    case None
    from Episode_store_current_size[OF s1[unfolded None]] le
    have cs: "current_size s1 = current_size self + batch_size_of eb" "size_buf s1 = size_buf self"
      by simp_all
    have "same_prefix (current_size s1) s1 self'"
    proof (rule Cons.IH)
      show "current_size s1 + sum_list (map (\<lambda>(d, eb). batch_size_of eb) bs) \<le> size_buf s1"
        using Cons.prems(1) b cs by simp
      show "store_all (\<lambda>(d, eb). ReplayBuffer_store_episode d eb) bs s1 = (r, self')"
        using Cons.prems(2) b s1 None by simp
    qed
    with p1 show ?thesis by (rule same_prefix_trans) (simp add: cs)
  qed
qed

text \<open>
  C3 (as amended). In the episode buffer, a store that fits in the free slots
  (\<open>current_size + batch_size \<le> capacity\<close>) is given exactly the next \<open>batch_size\<close> slots,
  from \<open>current_size\<close> on. So a sequence of stores whose batches fit together in the free
  slots (up to the first that raises, if any) leaves every slot below the \<open>current_size\<close>
  at the start, in every field, as it was.
\<close>

theorem C3_stores_that_fit_keep_stored_episodes:
  "(current_size self + inc \<le> size_buf self \<and> 0 < inc \<longrightarrow>
      (\<exists>idxs. ReplayBuffer_get_storage_idx draws inc self = Inr (idxs, self)
           \<and> idx_set idxs = {current_size self..<current_size self + inc}))
   \<and> (current_size self + sum_list (map (\<lambda>(d, eb). batch_size_of eb) bs) \<le> size_buf self
       \<and> store_all (\<lambda>(d, eb). ReplayBuffer_store_episode d eb) bs self = (r, self')
      \<longrightarrow> same_prefix (current_size self) self self')"
  using Episode_gsi_sequential[of self inc draws] Episode_store_all_same_prefix[of self bs r self']
  by blast

lemma ex_eps1_eq:
  "ex_eps1 = \<lparr>buffer_shapes = ex_eps_shapes, size_buf = 2, current_size = 1,
      buffers = [(''o'', \<lparr>ndim = 3, items = [[[1], [2], [3]], []]\<rparr>),
                 (''u'', \<lparr>ndim = 3, items = [[[0], [0]], []]\<rparr>),
                 (''ag'', \<lparr>ndim = 3, items = [[[1], [2], [3]], []]\<rparr>),
                 (''g'', \<lparr>ndim = 3, items = [[[10], [10]], []]\<rparr>),
                 (''r'', \<lparr>ndim = 3, items = [[[5], [5]], []]\<rparr>)],
      T_horizon = 2\<rparr>"
  by (simp add: ex_eps1_def ReplayBuffer_store_episode_def store_episode_def ex_episodes_def
        ex_eps0_def ex_eps_shapes_def np_empty_def
        ReplayBuffer_get_storage_idx_def setitem_def upt_conv_Cons)

theorem C3_stores_that_fit_witness:
  "current_size ex_eps1 + 1 \<le> size_buf ex_eps1 \<and> (0::nat) < 1
   \<and> (\<exists>idxs. ReplayBuffer_get_storage_idx [] 1 ex_eps1 = Inr (idxs, ex_eps1) \<and> idx_set idxs = {1..<2})
   \<and> current_size ex_eps1 + sum_list (map (\<lambda>(d, eb). batch_size_of eb) [([], ex_episodes [4])])
        \<le> size_buf ex_eps1
   \<and> same_prefix 1 ex_eps1
        (snd (store_all (\<lambda>(d, eb). ReplayBuffer_store_episode d eb) [([], ex_episodes [4])] ex_eps1))"
proof -
  have cs: "current_size ex_eps1 = 1" "size_buf ex_eps1 = 2" by (simp_all add: ex_eps1_eq)
  have h1: "current_size ex_eps1 + 1 \<le> size_buf ex_eps1 \<and> (0::nat) < 1" by (simp add: cs)
  have h2: "current_size ex_eps1 + sum_list (map (\<lambda>(d, eb). batch_size_of eb) [([], ex_episodes [4])])
        \<le> size_buf ex_eps1"
    by (simp add: cs batch_size_of_def ex_episodes_def)
  have h3: "store_all (\<lambda>(d, eb). ReplayBuffer_store_episode d eb) [([], ex_episodes [4])] ex_eps1
     = (fst (store_all (\<lambda>(d, eb). ReplayBuffer_store_episode d eb) [([], ex_episodes [4])] ex_eps1),
        snd (store_all (\<lambda>(d, eb). ReplayBuffer_store_episode d eb) [([], ex_episodes [4])] ex_eps1))"
    by simp
  from C3_stores_that_fit_keep_stored_episodes [where self = ex_eps1 and inc = 1 and draws = "[]"
      and bs = "[([], ex_episodes [4])]", OF] h1 h2 h3 cs
  show ?thesis by (metis One_nat_def Suc_1 plus_1_eq_Suc)
qed

text \<open>
  The claim as stated fails when the batch does not fit: with one episode stored in a
  buffer of two, a batch of two episodes is given the free slot 1 and then slot 0 (the
  only index that \<open>randint(0, 1, 1)\<close> can return), and the episode stored there is
  overwritten although \<open>current_size < capacity\<close> before the store.
\<close>

theorem C3_counterexample:
  "current_size ex_eps1 < size_buf ex_eps1
   \<and> storage_draws_ok [0] 2 ex_eps1
   \<and> ReplayBuffer_get_storage_idx [0] 2 ex_eps1 = Inr (Array [1, 0], ex_eps1)
   \<and> fst (ReplayBuffer_store_episode [0] (ex_episodes [4, 7]) ex_eps1) = None
   \<and> map_of (buffers ex_eps1) ''o'' = Some \<lparr>ndim = 3, items = [[[1], [2], [3]], []]\<rparr>
   \<and> map_of (buffers (snd (ReplayBuffer_store_episode [0] (ex_episodes [4, 7]) ex_eps1))) ''o''
       = Some \<lparr>ndim = 3, items = [[[7], [8], [9]], [[4], [5], [6]]]\<rparr>"
  by (simp add: ex_eps1_eq storage_draws_ok_def randint_contract_def
        ReplayBuffer_store_episode_def store_episode_def ex_episodes_def
        ReplayBuffer_get_storage_idx_def setitem_def upt_conv_Cons)

subsection \<open>C5: what a store that raises leaves behind\<close>

lemma setitem_ok:
  assumes "\<forall>i \<in> idx_set idxs. i < length (items arr)" and "length (items val) = idx_len idxs"
  shows "\<exists>arr'. setitem arr idxs val = Inr arr'"
proof (cases idxs)
  case (Scalar i)
  with assms(2) obtain v where "items val = [v]"
    by (cases "items val") auto
  with Scalar assms(1) show ?thesis by (simp add: setitem_def)
next
  case (Array "is")
  with assms show ?thesis by (simp add: setitem_def list_all_iff)
qed

lemma store_episode_atomic:
  assumes sized: "arrays_sized self" and every: "holds_every_field episode_batch self"
    and gsi_ok: "0 < batch_size_of episode_batch \<Longrightarrow> batch_size_of episode_batch \<le> size_buf self \<Longrightarrow>
          \<exists>idxs s1. gsi (batch_size_of episode_batch) self = Inr (idxs, s1) \<and> buffers s1 = buffers self
             \<and> size_buf s1 = size_buf self \<and> current_size s1 = current_size self
             \<and> (\<forall>i \<in> idx_set idxs. i < size_buf self)
             \<and> idx_len idxs = batch_size_of episode_batch"
    and gsi_err: "\<not> (0 < batch_size_of episode_batch \<and> batch_size_of episode_batch \<le> size_buf self)
          \<Longrightarrow> gsi (batch_size_of episode_batch) self = Inl AssertionError"
  shows "if batch_checks_ok episode_batch self
         then \<exists>idxs s1 self'. gsi (batch_size_of episode_batch) self = Inr (idxs, s1)
                \<and> store_episode gsi episode_batch self = (None, self')
                \<and> list_all2 (field_written idxs episode_batch) (buffers self) (buffers self')
                \<and> current_size self' = min (size_buf self) (current_size self + batch_size_of episode_batch)
                \<and> self' = s1\<lparr>buffers := buffers self', current_size := current_size self'\<rparr>
         else \<exists>e. store_episode gsi episode_batch self = (Some e, self)
                \<and> (e = IndexError \<or> e = AssertionError)"
proof (cases episode_batch)
  case Nil
  then show ?thesis by (simp add: batch_checks_ok_def store_episode_def)
next
  case (Cons p rest)
  obtain k first where p: "p = (k, first)" by (cases p)
  let ?n = "length (items first)"
  have bs: "batch_size_of episode_batch = ?n"
    using Cons p by (simp add: batch_size_of_def)
  show ?thesis
  proof (cases "batch_checks_ok episode_batch self")
    case False
    show ?thesis
    proof (cases "list_all (\<lambda>(key, val). length (items val) = ?n) episode_batch")
      case all: False
      with Cons p have "store_episode gsi episode_batch self = (Some AssertionError, self)"
        by (simp add: store_episode_def)
      with False show ?thesis by simp
    next
      case all: True
      with False Cons bs have "\<not> (0 < ?n \<and> ?n \<le> size_buf self)"
        by (auto simp: batch_checks_ok_def)
      from gsi_err[unfolded bs, OF this] all Cons p
      have "store_episode gsi episode_batch self = (Some AssertionError, self)"
        by (simp add: store_episode_def)
      with False show ?thesis by simp
    qed
  next
    case True
    then have all: "list_all (\<lambda>(key, val). length (items val) = ?n) episode_batch"
      and n: "0 < ?n" "?n \<le> size_buf self"
      using bs by (simp_all add: batch_checks_ok_def)
    from gsi_ok[unfolded bs, OF n] obtain idxs s1 where g: "gsi ?n self = Inr (idxs, s1)"
      "buffers s1 = buffers self" "size_buf s1 = size_buf self" "current_size s1 = current_size self"
      "\<forall>i \<in> idx_set idxs. i < size_buf self" "idx_len idxs = ?n"
      by blast
    have "\<forall>(key, arr) \<in> set (buffers self).
            \<exists>val arr'. map_of episode_batch key = Some val \<and> setitem arr idxs val = Inr arr'"
    proof (clarify)
      fix key arr assume m: "(key, arr) \<in> set (buffers self)"
      with every obtain val where v: "map_of episode_batch key = Some val"
        by (auto simp: holds_every_field_def list_all_iff)
      then have "(key, val) \<in> set episode_batch" by (rule map_of_SomeD)
      with all have lv: "length (items val) = idx_len idxs"
        by (auto simp: list_all_iff g(6))
      from m sized have "length (items arr) = size_buf self"
        by (auto simp: arrays_sized_def list_all_iff)
      with g(5) have "\<forall>i \<in> idx_set idxs. i < length (items arr)" by simp
      from setitem_ok[OF this lv] v
      show "\<exists>val arr'. map_of episode_batch key = Some val \<and> setitem arr idxs val = Inr arr'"
        by blast
    qed
    from store_fields_ok[OF this] obtain bufs' where
      sf: "store_fields (buffers self) idxs episode_batch = (None, bufs')"
          "list_all2 (field_written idxs episode_batch) (buffers self) bufs'"
      by blast
    have "store_episode gsi episode_batch self
        = (None, s1\<lparr>buffers := bufs', current_size := min (size_buf s1) (current_size s1 + ?n)\<rparr>)"
      using Cons p all g(1,2) sf(1) by (simp add: store_episode_def)
    with True g sf(2) bs show ?thesis by simp
  qed
qed

lemma Ring_gsi_ok:
  assumes "pointer self \<le> size_buf self" and "0 < inc" and "inc \<le> size_buf self"
  shows "\<exists>idxs s1. RingReplayBuffer_get_storage_idx inc self = Inr (idxs, s1)
             \<and> buffers s1 = buffers self
             \<and> size_buf s1 = size_buf self \<and> current_size s1 = current_size self
             \<and> (\<forall>i \<in> idx_set idxs. i < size_buf self) \<and> idx_len idxs = inc"
proof (cases "pointer self + inc \<le> size_buf self")
  case True
  with assms show ?thesis
    by (cases "inc = 1") (auto simp: RingReplayBuffer_get_storage_idx_def upt_conv_Cons)
next
  case False
  show ?thesis
  proof (cases "inc = 1")
    case True
    with False assms have "pointer self = size_buf self" by simp
    with True assms show ?thesis
      by (auto simp: RingReplayBuffer_get_storage_idx_def upt_conv_Cons)
  next
    case ne: False
    with False assms show ?thesis
      by (auto simp: RingReplayBuffer_get_storage_idx_def Let_def)
  qed
qed





subsection \<open>C7: the ring buffer after \<open>capacity + m\<close> transitions\<close>

lemma store_all_snoc:
  "store_all f (xs @ [x]) s =
     (case store_all f xs s of (Some e, s') \<Rightarrow> (Some e, s') | (None, s') \<Rightarrow> f x s')"
proof (induction xs arbitrary: s)
  case Nil
  show ?case by (cases "f x s") (auto split: option.splits)
next
  case (Cons y ys)
  show ?case
    by (cases "f y s") (auto simp: Cons.IH split: option.splits)
qed

lemma Ring_store_single:
  assumes sized: "arrays_sized s" and ptr: "pointer s \<le> size_buf s"
    and every: "holds_every_field tb s"
    and tb: "tb \<noteq> []" "list_all (\<lambda>(k, v). length (items v) = 1) tb"
    and pos: "0 < size_buf s"
    and slot: "slot = (if pointer s + 1 \<le> size_buf s then pointer s else 0)"
  shows "\<exists>s'. RingReplayBuffer_store_episode tb s = (None, s')
           \<and> list_all2 (field_written (Scalar slot) tb) (buffers s) (buffers s')
           \<and> pointer s' = slot + 1 \<and> size_buf s' = size_buf s
           \<and> current_size s' = min (size_buf s) (current_size s + 1)"
proof -
  obtain k first where hd: "hd tb = (k, first)" by (cases "hd tb")
  with tb have "length (items first) = 1" by (cases tb) auto
  with hd have bs: "batch_size_of tb = 1" by (simp add: batch_size_of_def)
  have ok: "batch_checks_ok tb s"
    using tb bs pos by (simp add: batch_checks_ok_def)
  have g: "RingReplayBuffer_get_storage_idx 1 s = Inr (Scalar slot, s\<lparr>pointer := slot + 1\<rparr>)"
    using ptr pos slot by (auto simp: RingReplayBuffer_get_storage_idx_def Let_def upt_conv_Cons)
  have "if batch_checks_ok tb s
         then \<exists>idxs s1 self'. RingReplayBuffer_get_storage_idx (batch_size_of tb) s = Inr (idxs, s1)
                \<and> store_episode RingReplayBuffer_get_storage_idx tb s = (None, self')
                \<and> list_all2 (field_written idxs tb) (buffers s) (buffers self')
                \<and> current_size self' = min (size_buf s) (current_size s + batch_size_of tb)
                \<and> self' = s1\<lparr>buffers := buffers self', current_size := current_size self'\<rparr>
         else \<exists>e. store_episode RingReplayBuffer_get_storage_idx tb s = (Some e, s)
                \<and> (e = IndexError \<or> e = AssertionError)"
  proof (rule store_episode_atomic[OF sized every])
    assume "0 < batch_size_of tb" "batch_size_of tb \<le> size_buf s"
    with ptr show "\<exists>idxs s1. RingReplayBuffer_get_storage_idx (batch_size_of tb) s = Inr (idxs, s1)
             \<and> buffers s1 = buffers s
             \<and> size_buf s1 = size_buf s \<and> current_size s1 = current_size s
             \<and> (\<forall>i \<in> idx_set idxs. i < size_buf s) \<and> idx_len idxs = batch_size_of tb"
      by (rule Ring_gsi_ok)
  next
    assume "\<not> (0 < batch_size_of tb \<and> batch_size_of tb \<le> size_buf s)"
    then show "RingReplayBuffer_get_storage_idx (batch_size_of tb) s = Inl AssertionError"
      by (auto simp: RingReplayBuffer_get_storage_idx_def)
  qed
  with ok bs g obtain self' where
    r: "store_episode RingReplayBuffer_get_storage_idx tb s = (None, self')"
       "list_all2 (field_written (Scalar slot) tb) (buffers s) (buffers self')"
       "current_size self' = min (size_buf s) (current_size s + 1)"
       "self' = (s\<lparr>pointer := slot + 1\<rparr>)\<lparr>buffers := buffers self', current_size := current_size self'\<rparr>"
    by auto
  from r(4) have "pointer self' = slot + 1" "size_buf self' = size_buf s"
    by (metis RingReplayBuffer.select_convs(1) RingReplayBuffer.surjective RingReplayBuffer.update_convs(1)
        ReplayBufferBase.select_convs(2) ReplayBufferBase.surjective ReplayBufferBase.update_convs(3)
        ReplayBufferBase.update_convs(4))+
  with r show ?thesis by (auto simp: RingReplayBuffer_store_episode_def)
qed


lemma list_all2_transfer:
  assumes "list_all2 R xs ys" and "list_all P xs" and "\<And>x y. R x y \<Longrightarrow> P x \<Longrightarrow> Q y"
  shows "list_all Q ys"
  using assms unfolding list_all2_conv_all_nth list_all_length by metis

lemma field_written_Scalar:
  assumes "field_written (Scalar slot) tb b b'"
  shows "fst b' = fst b \<and> length (items (snd b')) = length (items (snd b))
         \<and> slot < length (items (snd b))
         \<and> items (snd b') = (items (snd b))[slot := hd (items (the (map_of tb (fst b))))]"
proof -
  from assms obtain val where v: "fst b' = fst b" "map_of tb (fst b) = Some val"
    "setitem (snd b) (Scalar slot) val = Inr (snd b')"
    by (auto simp: field_written_def split: option.splits)
  from v(3) obtain x where x: "items val = [x]" "slot < length (items (snd b))"
    "snd b' = (snd b)\<lparr>items := (items (snd b))[slot := x]\<rparr>"
    by (auto simp: setitem_def split: if_splits list.splits)
  from v x show ?thesis by simp
qed

lemma Ring_store_all_invariant:
  assumes C: "0 < C"
  shows "list_all (is_transition_for shapes) tbs \<Longrightarrow>
     \<exists>st. store_all RingReplayBuffer_store_episode tbs (RingReplayBuffer_init shapes C junk) = (None, st)
        \<and> size_buf st = C \<and> map fst (buffers st) = map fst shapes
        \<and> pointer st = (if length tbs = 0 then 0 else (length tbs - 1) mod C + 1)
        \<and> current_size st = min C (length tbs)
        \<and> list_all (\<lambda>b. length (items (snd b)) = C
              \<and> (\<forall>j < length tbs. length tbs \<le> j + C \<longrightarrow>
                    items (snd b) ! (j mod C) = hd (items (the (map_of (tbs ! j) (fst b))))))
            (buffers st)"
proof (induction tbs rule: rev_induct)
  case Nil
  show ?case
    by (simp add: RingReplayBuffer_init_def np_empty_def list_all_iff split_beta comp_def)
next
  case (snoc tb tbs)
  let ?n = "length tbs"
  from snoc.prems have tbs: "list_all (is_transition_for shapes) tbs" and tb: "is_transition_for shapes tb"
    by simp_all
  from snoc.IH[OF tbs] obtain st where
    st: "store_all RingReplayBuffer_store_episode tbs (RingReplayBuffer_init shapes C junk) = (None, st)"
    and sz: "size_buf st = C" and keys: "map fst (buffers st) = map fst shapes"
    and ptr: "pointer st = (if ?n = 0 then 0 else (?n - 1) mod C + 1)"
    and cs: "current_size st = min C ?n"
    and inv: "list_all (\<lambda>b. length (items (snd b)) = C
              \<and> (\<forall>j < ?n. ?n \<le> j + C \<longrightarrow>
                    items (snd b) ! (j mod C) = hd (items (the (map_of (tbs ! j) (fst b))))))
            (buffers st)"
    by blast
  have sized: "arrays_sized st"
    using inv sz by (auto simp: arrays_sized_def list_all_iff)
  have ple: "pointer st \<le> size_buf st"
    using ptr sz C by (auto simp: Suc_le_eq)
  have every: "holds_every_field tb st"
  proof -
    have "\<forall>k \<in> set (map fst (buffers st)). map_of tb k \<noteq> None"
      using tb keys by (simp add: is_transition_for_def list_all_iff)
    then show ?thesis by (auto simp: holds_every_field_def list_all_iff)
  qed
  have slot: "?n mod C = (if pointer st + 1 \<le> size_buf st then pointer st else 0)"
    and nptr: "?n mod C + 1 = (if length (tbs @ [tb]) = 0 then 0 else (length (tbs @ [tb]) - 1) mod C + 1)"
  proof -
    show "?n mod C = (if pointer st + 1 \<le> size_buf st then pointer st else 0)"
    proof (cases "?n = 0")
      case True
      with ptr sz C show ?thesis by simp
    next
      case False
      then obtain k where k: "?n = Suc k" by (cases ?n) auto
      have "Suc k mod C = (if Suc (k mod C) = C then 0 else Suc (k mod C))"
        by (rule mod_Suc)
      moreover have "k mod C < C" using C by simp
      ultimately show ?thesis using ptr sz k by auto
    qed
    show "?n mod C + 1 = (if length (tbs @ [tb]) = 0 then 0 else (length (tbs @ [tb]) - 1) mod C + 1)"
      by simp
  qed
  from tb have tb1: "tb \<noteq> []" "list_all (\<lambda>(k, v). length (items v) = 1) tb"
    by (simp_all add: is_transition_for_def)
  from Ring_store_single[OF sized ple every tb1 _ slot] C sz obtain st' where
    st': "RingReplayBuffer_store_episode tb st = (None, st')"
    and fw: "list_all2 (field_written (Scalar (?n mod C)) tb) (buffers st) (buffers st')"
    and p': "pointer st' = ?n mod C + 1" and sz': "size_buf st' = size_buf st"
    and cs': "current_size st' = min (size_buf st) (current_size st + 1)"
    by auto
  have run: "store_all RingReplayBuffer_store_episode (tbs @ [tb]) (RingReplayBuffer_init shapes C junk)
      = (None, st')"
    using st st' by (simp add: store_all_snoc)
  have keys': "map fst (buffers st') = map fst shapes"
  proof -
    have "map fst (buffers st') = map fst (buffers st)"
      using fw unfolding list_all2_conv_all_nth
      by (auto intro!: nth_equalityI dest!: field_written_Scalar)
    with keys show ?thesis by simp
  qed
  have inv': "list_all (\<lambda>b. length (items (snd b)) = C
              \<and> (\<forall>j < length (tbs @ [tb]). length (tbs @ [tb]) \<le> j + C \<longrightarrow>
                    items (snd b) ! (j mod C) = hd (items (the (map_of ((tbs @ [tb]) ! j) (fst b))))))
            (buffers st')"
    using fw inv
  proof (rule list_all2_transfer)
    fix b b' :: "string \<times> 'a ndarray"
    assume w: "field_written (Scalar (?n mod C)) tb b b'"
      and P: "length (items (snd b)) = C
              \<and> (\<forall>j < ?n. ?n \<le> j + C \<longrightarrow>
                    items (snd b) ! (j mod C) = hd (items (the (map_of (tbs ! j) (fst b)))))"
    from field_written_Scalar[OF w] have
      f: "fst b' = fst b" "length (items (snd b')) = length (items (snd b))"
         "items (snd b') = (items (snd b))[?n mod C := hd (items (the (map_of tb (fst b))))]"
      by simp_all
    have "\<forall>j < length (tbs @ [tb]). length (tbs @ [tb]) \<le> j + C \<longrightarrow>
            items (snd b') ! (j mod C) = hd (items (the (map_of ((tbs @ [tb]) ! j) (fst b'))))"
    proof (intro allI impI)
      fix j assume j: "j < length (tbs @ [tb])" "length (tbs @ [tb]) \<le> j + C"
      show "items (snd b') ! (j mod C) = hd (items (the (map_of ((tbs @ [tb]) ! j) (fst b'))))"
      proof (cases "j = ?n")
        case True
        with f P C show ?thesis by simp
      next
        case False
        with j have lt: "j < ?n" and le: "?n \<le> j + C" and d: "?n - j < C" "0 < ?n - j" by simp_all
        have ne: "?n mod C \<noteq> j mod C"
        proof
          assume "?n mod C = j mod C"
          then have "(?n - j) mod C = 0"
            using lt by (metis less_imp_le_nat mod_self mod_0 mod_eq_dvd_iff_nat dvd_imp_mod_0)
          with d show False by simp
        qed
        from P lt le have "items (snd b) ! (j mod C) = hd (items (the (map_of (tbs ! j) (fst b))))"
          by simp
        with f ne lt show ?thesis by (simp add: nth_append)
      qed
    qed
    with f P show "length (items (snd b')) = C
              \<and> (\<forall>j < length (tbs @ [tb]). length (tbs @ [tb]) \<le> j + C \<longrightarrow>
                    items (snd b') ! (j mod C) = hd (items (the (map_of ((tbs @ [tb]) ! j) (fst b')))))"
      by simp
  qed
  have cs2: "current_size st' = min C (length (tbs @ [tb]))"
    using cs' cs sz by simp
  from run sz' sz keys' p' nptr cs2 inv' show ?case
    by (intro exI[of _ st']) simp
qed


text \<open>
  C7. A fresh ring buffer of capacity \<open>C\<close> is given \<open>C + m\<close> single transitions, one
  \<open>store_episode\<close> each, with \<open>m < C\<close>. No store raises; afterwards \<open>current_size = C\<close> and,
  in every field, the slot \<open>(m + k) mod C\<close> holds the entry of transition number
  \<open>m + k\<close>, for every \<open>k < C\<close>: the last \<open>C\<close> transitions in the order of insertion, from
  slot \<open>m\<close> on and wrapping to slot 0.
\<close>

theorem C7_ring_holds_last_capacity_transitions:
  assumes "m < C" and "length tbs = C + m" and "list_all (is_transition_for shapes) tbs"
  shows "\<exists>st. store_all RingReplayBuffer_store_episode tbs (RingReplayBuffer_init shapes C junk)
                = (None, st)
           \<and> current_size st = C \<and> map fst (buffers st) = map fst shapes
           \<and> list_all (\<lambda>b. length (items (snd b)) = C
                  \<and> (\<forall>k < C. items (snd b) ! ((m + k) mod C)
                              = hd (items (the (map_of (tbs ! (m + k)) (fst b))))))
                (buffers st)"
proof -
  from assms(1) have C: "0 < C" by simp
  from Ring_store_all_invariant[OF C assms(3), of junk] obtain st where
    st: "store_all RingReplayBuffer_store_episode tbs (RingReplayBuffer_init shapes C junk) = (None, st)"
    and keys: "map fst (buffers st) = map fst shapes"
    and cs: "current_size st = min C (length tbs)"
    and inv: "list_all (\<lambda>b. length (items (snd b)) = C
              \<and> (\<forall>j < length tbs. length tbs \<le> j + C \<longrightarrow>
                    items (snd b) ! (j mod C) = hd (items (the (map_of (tbs ! j) (fst b))))))
            (buffers st)"
    by blast
  have "list_all (\<lambda>b. length (items (snd b)) = C
                  \<and> (\<forall>k < C. items (snd b) ! ((m + k) mod C)
                              = hd (items (the (map_of (tbs ! (m + k)) (fst b))))))
                (buffers st)"
    using inv assms(2) by (auto simp: list_all_iff)
  with st keys cs assms(2) show ?thesis by auto
qed

theorem C7_ring_holds_last_capacity_transitions_witness:
  "(1::nat) < 2
   \<and> length [ex_transition 1 0, ex_transition 2 0, ex_transition 3 1] = 2 + 1
   \<and> list_all (is_transition_for ex_ring_shapes) [ex_transition 1 0, ex_transition 2 0, ex_transition 3 1]
   \<and> (\<exists>st. store_all RingReplayBuffer_store_episode
              [ex_transition 1 0, ex_transition 2 0, ex_transition 3 1] ex_ring0 = (None, st)
           \<and> current_size st = 2 \<and> map fst (buffers st) = map fst ex_ring_shapes
           \<and> list_all (\<lambda>b. length (items (snd b)) = 2
                  \<and> (\<forall>k < 2. items (snd b) ! ((1 + k) mod 2)
                              = hd (items (the (map_of
                                  ([ex_transition 1 0, ex_transition 2 0, ex_transition 3 1] ! (1 + k))
                                  (fst b))))))
                (buffers st))
   \<and> map_of (buffers (snd (store_all RingReplayBuffer_store_episode
              [ex_transition 1 0, ex_transition 2 0, ex_transition 3 1] ex_ring0))) ''o''
       = Some \<lparr>ndim = 2, items = [[3], [2]]\<rparr>"
proof -
  have h1: "(1::nat) < 2" by simp
  have h2: "length [ex_transition 1 0, ex_transition 2 0, ex_transition 3 1] = 2 + 1" by simp
  have h3: "list_all (is_transition_for ex_ring_shapes)
              [ex_transition 1 0, ex_transition 2 0, ex_transition 3 1]"
    by (simp add: is_transition_for_def ex_ring_shapes_def ex_transition_def)
  have ev: "map_of (buffers (snd (store_all RingReplayBuffer_store_episode
              [ex_transition 1 0, ex_transition 2 0, ex_transition 3 1] ex_ring0))) ''o''
       = Some \<lparr>ndim = 2, items = [[3], [2]]\<rparr>"
    by (simp add: RingReplayBuffer_store_episode_def store_episode_def ex_transition_def
        ex_ring0_def RingReplayBuffer_init_def ex_ring_shapes_def np_empty_def
        RingReplayBuffer_get_storage_idx_def setitem_def upt_conv_Cons)
  from C7_ring_holds_last_capacity_transitions [OF h1 h2 h3, of "\<lambda>_ _. []"] h1 h3 ev
  show ?thesis unfolding ex_ring0_def by simp
qed

subsection \<open>C4: dumping a buffer and loading the archive\<close>



















subsection \<open>Helper lemmas on the samplers\<close>

lemma bind_err_Inr: "bind_err m f = Inr y \<longleftrightarrow> (\<exists>x. m = Inr x \<and> f x = Inr y)"
  by (cases m) simp_all

lemma scatter_Nil [simp]: "scatter xs [] vs = xs"
  by (cases vs) simp_all


lemma set_rows_Inr:
  assumes "set_rows key idxs val tr = Inr tr'"
  shows "\<exists>rows. map_of tr key = Some rows \<and> tr' = AList.update key (scatter rows idxs val) tr"
  using assms by (auto simp: set_rows_def split: option.splits if_splits)

lemma gather_fields_Inr:
  assumes "gather_fields bufs es ts = Inr tr"
  shows "tr = map (\<lambda>(key, arr). (key, map (\<lambda>(e, t). items arr ! e ! t) (zip es ts))) bufs"
    and "map_of tr key = map_option (\<lambda>arr. map (\<lambda>(e, t). items arr ! e ! t) (zip es ts)) (map_of bufs key)"
    and "map fst tr = map fst bufs"
    and "\<forall>(k, v) \<in> set tr. length v = min (length es) (length ts)"
proof -
  show t: "tr = map (\<lambda>(key, arr). (key, map (\<lambda>(e, t). items arr ! e ! t) (zip es ts))) bufs"
    using assms by (simp add: gather_fields_def split: if_splits)
  show "map_of tr key = map_option (\<lambda>arr. map (\<lambda>(e, t). items arr ! e ! t) (zip es ts)) (map_of bufs key)"
    unfolding t by (simp add: map_of_map)
  show "map fst tr = map fst bufs" unfolding t by (simp add: comp_def split_beta)
  show "\<forall>(k, v) \<in> set tr. length v = min (length es) (length ts)" unfolding t by auto
qed

text \<open>The goal that the relabelling writes into record \<open>i\<close>.\<close>

lemma her_relabel_Inr:
  assumes "her_relabel future_p T d bufs tr0 = Inr tr1"
  shows "\<exists>ag future_ag g0 g20.
           map_of bufs ''ag'' = Some ag
         \<and> gather ag (take_idx (episode_idxs d) (her_indexes_of future_p (her_uniform d)))
              (take_idx (map (\<lambda>(t, off). t + 1 + off)
                   (zip (t_samples d) (future_offset_of T (offset_uniform d) (t_samples d))))
                 (her_indexes_of future_p (her_uniform d))) = Inr future_ag
         \<and> map_of tr0 ''g'' = Some g0 \<and> map_of tr0 ''g_2'' = Some g20
         \<and> map_of tr1 ''g'' = Some (scatter g0 (her_indexes_of future_p (her_uniform d)) future_ag)
         \<and> map_of tr1 ''g_2'' = Some (scatter g20 (her_indexes_of future_p (her_uniform d)) future_ag)
         \<and> (\<forall>k. k \<noteq> ''g'' \<and> k \<noteq> ''g_2'' \<and> k \<noteq> ''q'' \<longrightarrow> map_of tr1 k = map_of tr0 k)"
proof -
  let ?hi = "her_indexes_of future_p (her_uniform d)"
  let ?ft = "take_idx (map (\<lambda>(t, off). t + 1 + off)
                   (zip (t_samples d) (future_offset_of T (offset_uniform d) (t_samples d)))) ?hi"
  from assms obtain ag where ag: "map_of bufs ''ag'' = Some ag"
    by (auto simp: her_relabel_def Let_def split: option.splits)
  with assms obtain future_ag tra trb where
    fa: "gather ag (take_idx (episode_idxs d) ?hi) ?ft = Inr future_ag"
    and a: "set_rows ''g'' ?hi future_ag tr0 = Inr tra"
    and b: "set_rows ''g_2'' ?hi future_ag tra = Inr trb"
    and q: "(case map_of trb ''q'' of None \<Rightarrow> Inr trb
             | Some q \<Rightarrow> set_rows ''q'' ?hi (map (map (\<lambda>_. - 100)) (take_idx q ?hi)) trb) = Inr tr1"
    by (auto simp: her_relabel_def Let_def bind_err_Inr)
  from set_rows_Inr[OF a] obtain g0 where
    g0: "map_of tr0 ''g'' = Some g0" "tra = AList.update ''g'' (scatter g0 ?hi future_ag) tr0" by blast
  from set_rows_Inr[OF b] obtain g20 where
    g20: "map_of tra ''g_2'' = Some g20" "trb = AList.update ''g_2'' (scatter g20 ?hi future_ag) tra" by blast
  have q': "\<forall>k. k \<noteq> ''q'' \<longrightarrow> map_of tr1 k = map_of trb k"
  proof (cases "map_of trb ''q''")
    case None
    with q show ?thesis by simp
  next
    case (Some qq)
    with q have "set_rows ''q'' ?hi (map (map (\<lambda>_. - 100)) (take_idx qq ?hi)) trb = Inr tr1" by simp
    from set_rows_Inr[OF this] show ?thesis by (auto simp: update_conv')
  qed
  have 1: "map_of tr0 ''g_2'' = Some g20" using g20(1) g0(2) by (simp add: update_conv')
  have 2: "map_of tr1 ''g'' = Some (scatter g0 ?hi future_ag)"
    using q' g20(2) g0(2) by (simp add: update_conv')
  have 3: "map_of tr1 ''g_2'' = Some (scatter g20 ?hi future_ag)"
    using q' g20(2) by (simp add: update_conv')
  have 4: "\<forall>k. k \<noteq> ''g'' \<and> k \<noteq> ''g_2'' \<and> k \<noteq> ''q'' \<longrightarrow> map_of tr1 k = map_of tr0 k"
    using q' g20(2) g0(2) by (simp add: update_conv')
  from ag fa g0(1) 1 2 3 4 show ?thesis by blast
qed

lemma her_reward_Inr:
  assumes "her_reward reward_fun batch_size tr1 = Inr transitions"
  shows "\<exists>ag_2 g_2. map_of tr1 ''ag_2'' = Some ag_2 \<and> map_of tr1 ''g_2'' = Some g_2
           \<and> transitions = AList.update ''r'' (map (\<lambda>x. [x]) (reward_fun ag_2 g_2 (build_info tr1))) tr1
           \<and> list_all (\<lambda>(k, v). length v = batch_size) transitions"
  using assms
  by (auto simp: her_reward_def Let_def bind_err_Inr reshape_fields_def
      split: option.splits if_splits)

subsection \<open>C1: the relabelled goal is a later achieved goal of the same episode\<close>








lemma ex_her_sample:
  "HERReplayBuffer_sample_transitions (4 / 5) ex_reward 2 ex_draws ex_her_bufs 2
     = Inr [(''o'', [[1], [2]]), (''u'', [[0], [0]]), (''ag'', [[1], [2]]), (''g'', [[3], [10]]),
            (''r'', [[- 1], [- 1]]), (''o_2'', [[2], [3]]), (''ag_2'', [[2], [3]]),
            (''g_2'', [[3], [10]])]"
  by (simp add: HERReplayBuffer_sample_transitions_def draw_check_def gather_fields_def
      gather_ok_def her_relabel_def her_reward_def her_indexes_of_def future_offset_of_def
      take_idx_def gather_def set_rows_def build_info_def reshape_fields_def
      ex_her_bufs_def ex_draws_def ex_reward_def upt_conv_Cons)


subsection \<open>C9: \<open>g_2\<close> equals \<open>g\<close> in a hindsight batch\<close>

lemma HER_g_2_eq_g:
  assumes "HERReplayBuffer_sample_transitions future_p reward_fun T d bufs batch_size = Inr transitions"
    and "map_of bufs ''g_2'' = map_of bufs ''g''"
  shows "\<exists>g. map_of transitions ''g'' = Some g \<and> map_of transitions ''g_2'' = Some g"
proof -
  from assms(1) obtain tr0 tr1 where
    tr0: "gather_fields bufs (episode_idxs d) (t_samples d) = Inr tr0"
    and tr1: "her_relabel future_p T d bufs tr0 = Inr tr1"
    and tr2: "her_reward reward_fun batch_size tr1 = Inr transitions"
    by (auto simp: HERReplayBuffer_sample_transitions_def bind_err_Inr)
  have same: "map_of tr0 ''g_2'' = map_of tr0 ''g''"
    using assms(2) by (simp add: gather_fields_Inr(2)[OF tr0])
  from her_relabel_Inr[OF tr1] obtain future_ag g0 g20 where
    h: "map_of tr0 ''g'' = Some g0" "map_of tr0 ''g_2'' = Some g20"
       "map_of tr1 ''g'' = Some (scatter g0 (her_indexes_of future_p (her_uniform d)) future_ag)"
       "map_of tr1 ''g_2'' = Some (scatter g20 (her_indexes_of future_p (her_uniform d)) future_ag)"
    by auto
  from h(1,2) same have "g20 = g0" by simp
  with h(3,4) have r: "map_of tr1 ''g_2'' = map_of tr1 ''g''" by simp
  from her_reward_Inr[OF tr2]
  have "map_of transitions ''g'' = map_of tr1 ''g''" "map_of transitions ''g_2'' = map_of tr1 ''g_2''"
    by (auto simp: update_conv')
  with r h(3) show ?thesis by simp
qed

lemma ReplayBuffer_sample_Inr:
  assumes "ReplayBuffer_sample st batch_size self = Inr transitions"
  shows "\<exists>buffers3. st buffers3 batch_size = Inr transitions
           \<and> (map_of buffers3 ''g'' = None \<or> map_of buffers3 ''g_2'' = map_of buffers3 ''g'')
           \<and> (map_of buffers3 ''g'' \<noteq> None \<longrightarrow> map_of (buffers self) ''g'' \<noteq> None)"
proof -
  let ?b0 = "map (\<lambda>(key, arr). (key, arr\<lparr>items := take (current_size self) (items arr)\<rparr>)) (buffers self)"
  have k0: "map_of ?b0 ''g'' \<noteq> None \<longrightarrow> map_of (buffers self) ''g'' \<noteq> None"
    by (simp add: map_of_map)
  from assms obtain buffers1 buffers2 buffers3 where
    b1: "add_o_2 ?b0 = Inr buffers1" and b2: "add_ag_2 buffers1 = Inr buffers2"
    and b3: "add_g_2 buffers2 = Inr buffers3"
    and t: "st buffers3 batch_size = Inr transitions"
    by (auto simp: ReplayBuffer_sample_def bind_err_Inr split: if_splits)
  have k1: "map_of buffers1 ''g'' = map_of ?b0 ''g''"
    using b1 by (auto simp: add_o_2_def bind_err_Inr update_conv' split: option.splits)
  have k2: "map_of buffers2 ''g'' = map_of buffers1 ''g''"
    using b2 by (auto simp: add_ag_2_def bind_err_Inr update_conv' split: option.splits)
  have k3: "map_of buffers3 ''g'' = map_of buffers2 ''g''"
    "map_of buffers3 ''g'' = None \<or> map_of buffers3 ''g_2'' = map_of buffers3 ''g''"
    using b3
    by (auto simp: add_g_2_def bind_err_Inr update_conv' slice_all_def split: option.splits if_splits)
  from t k0 k1 k2 k3 show ?thesis by auto
qed

text \<open>
  C9. In every batch that \<open>sample\<close> of the hindsight buffer returns, there are fields \<open>g\<close>
  and \<open>g_2\<close> and they are equal: \<open>sample\<close> derives \<open>g_2\<close> as \<open>g\<close>, both are gathered at the
  same episodes and steps, and the relabelling writes the same rows into both. (A buffer
  without a field \<open>g\<close> returns no batch: the relabelling raises \<open>KeyError\<close>.)
\<close>

theorem C9_returned_g_2_equals_g:
  assumes "HERReplayBuffer_sample future_p reward_fun d batch_size self = Inr transitions"
  shows "map_of (buffers self) ''g'' \<noteq> None
       \<and> (\<exists>g. map_of transitions ''g'' = Some g \<and> map_of transitions ''g_2'' = Some g)"
proof -
  from ReplayBuffer_sample_Inr[OF assms[unfolded HERReplayBuffer_sample_def]] obtain buffers2 where
    tr: "HERReplayBuffer_sample_transitions future_p reward_fun (T_horizon self) d buffers2 batch_size
           = Inr transitions"
    and g: "map_of buffers2 ''g'' = None \<or> map_of buffers2 ''g_2'' = map_of buffers2 ''g''"
    and g0: "map_of buffers2 ''g'' \<noteq> None \<longrightarrow> map_of (buffers self) ''g'' \<noteq> None"
    by auto
  from tr obtain tr0 tr1 where
    tr0: "gather_fields buffers2 (episode_idxs d) (t_samples d) = Inr tr0"
    and tr1: "her_relabel future_p (T_horizon self) d buffers2 tr0 = Inr tr1"
    by (auto simp: HERReplayBuffer_sample_transitions_def bind_err_Inr)
  from her_relabel_Inr[OF tr1] have "map_of tr0 ''g'' \<noteq> None" by auto
  then have g2: "map_of buffers2 ''g'' \<noteq> None"
    by (simp add: gather_fields_Inr(2)[OF tr0])
  with g have eq: "map_of buffers2 ''g_2'' = map_of buffers2 ''g''" by simp
  from HER_g_2_eq_g[OF tr eq] g0 g2 show ?thesis by simp
qed

lemma ex_her_sample_from_buffer:
  "HERReplayBuffer_sample (4 / 5) ex_reward ex_draws 2 ex_eps1
     = Inr [(''o'', [[1], [2]]), (''u'', [[0], [0]]), (''ag'', [[1], [2]]), (''g'', [[3], [10]]),
            (''r'', [[- 1], [- 1]]), (''o_2'', [[2], [3]]), (''ag_2'', [[2], [3]]),
            (''g_2'', [[3], [10]])]"
proof -
  have "HERReplayBuffer_sample (4 / 5) ex_reward ex_draws 2 ex_eps1
      = bind_err (HERReplayBuffer_sample_transitions (4 / 5) ex_reward 2 ex_draws ex_her_bufs 2)
          (\<lambda>transitions.
              if \<not> list_all (\<lambda>key. key \<in> set (map fst transitions)) (map fst (buffers ex_eps1))
              then Inl AssertionError else Inr transitions)"
    by (simp add: HERReplayBuffer_sample_def ReplayBuffer_sample_def ex_eps1_eq slice_next_def
        slice_all_def ex_her_bufs_def add_o_2_def add_ag_2_def add_g_2_def)
  then show ?thesis by (simp add: ex_her_sample ex_eps1_eq)
qed

theorem C9_returned_g_2_equals_g_witness:
  "HERReplayBuffer_sample (4 / 5) ex_reward ex_draws 2 ex_eps1
     = Inr [(''o'', [[1], [2]]), (''u'', [[0], [0]]), (''ag'', [[1], [2]]), (''g'', [[3], [10]]),
            (''r'', [[- 1], [- 1]]), (''o_2'', [[2], [3]]), (''ag_2'', [[2], [3]]),
            (''g_2'', [[3], [10]])]
   \<and> map_of (buffers ex_eps1) ''g'' \<noteq> None
   \<and> (\<exists>g. map_of [(''o'', [[1], [2]]), (''u'', [[0], [0]]), (''ag'', [[1], [2]]), (''g'', [[3], [10]]),
                   (''r'', [[- 1], [- 1]]), (''o_2'', [[2], [3]]), (''ag_2'', [[2], [3]]),
                   (''g_2'', [[3], [10::real]])] ''g'' = Some g
          \<and> map_of [(''o'', [[1], [2]]), (''u'', [[0], [0]]), (''ag'', [[1], [2]]), (''g'', [[3], [10]]),
                   (''r'', [[- 1], [- 1]]), (''o_2'', [[2], [3]]), (''ag_2'', [[2], [3]]),
                   (''g_2'', [[3], [10::real]])] ''g_2'' = Some g)"
proof -
  note c = C9_returned_g_2_equals_g [OF ex_her_sample_from_buffer]
  from ex_her_sample_from_buffer c show ?thesis by (rule conjI)
qed

subsection \<open>C6: the hindsight sampler with \<open>k = 0\<close>\<close>

lemma set_rows_no_index:
  assumes "set_rows key [] val tr = Inr tr'"
  shows "tr' = tr"
proof -
  from set_rows_Inr[OF assms] obtain rows where
    "map_of tr key = Some rows" "tr' = AList.update key (scatter rows [] val) tr"
    by auto
  then show ?thesis by (simp add: update_triv)
qed

lemma her_relabel_none:
  assumes "her_indexes_of future_p (her_uniform d) = []"
    and "her_relabel future_p T d bufs tr0 = Inr tr1"
  shows "tr1 = tr0"
proof -
  from assms(2) obtain ag where ag: "map_of bufs ''ag'' = Some ag"
    by (auto simp: her_relabel_def Let_def split: option.splits)
  with assms obtain future_ag tra trb where
    a: "set_rows ''g'' [] future_ag tr0 = Inr tra"
    and b: "set_rows ''g_2'' [] future_ag tra = Inr trb"
    and q: "(case map_of trb ''q'' of None \<Rightarrow> Inr trb
             | Some q \<Rightarrow> set_rows ''q'' [] (map (map (\<lambda>_. - 100)) (take_idx q [])) trb) = Inr tr1"
    by (auto simp: her_relabel_def Let_def bind_err_Inr)
  have "tr1 = trb"
  proof (cases "map_of trb ''q''")
    case None
    with q show ?thesis by simp
  next
    case (Some qq)
    with q have "set_rows ''q'' [] (map (map (\<lambda>_. - 100)) (take_idx qq [])) trb = Inr tr1" by simp
    then show ?thesis by (rule set_rows_no_index)
  qed
  with set_rows_no_index[OF a] set_rows_no_index[OF b] show ?thesis by simp
qed

text \<open>
  C6 (as amended). With \<open>k = 0\<close>, \<open>future_p\<close> is 0 and no record is selected for
  relabelling. When \<open>sample_transitions\<close> of the hindsight sampler returns a batch, that
  of the uniform sampler returns one for the same buffers and the same draws of episodes
  and timesteps, and the hindsight batch is the uniform batch with the field \<open>r\<close> set to
  the reward computed by \<open>reward_fun\<close> from the fields \<open>ag_2\<close>, \<open>g_2\<close> and the \<open>info\<close>
  fields of the batch: every other field is identical.
\<close>

theorem C6_no_relabelling_with_k_zero:
  assumes fp: "HERReplayBuffer_future_p 0 = Inr future_p"
    and draws: "uniform_contract batch_size (her_uniform d)"
    and ret: "HERReplayBuffer_sample_transitions future_p reward_fun T d bufs batch_size
                = Inr transitions"
  shows "future_p = 0 \<and> her_indexes_of future_p (her_uniform d) = []
       \<and> (\<exists>uniform_batch ag_2 g_2.
             UniformReplayBuffer_sample_transitions T d bufs batch_size = Inr uniform_batch
           \<and> map_of uniform_batch ''ag_2'' = Some ag_2 \<and> map_of uniform_batch ''g_2'' = Some g_2
           \<and> transitions = AList.update ''r''
                 (map (\<lambda>x. [x]) (reward_fun ag_2 g_2 (build_info uniform_batch))) uniform_batch)"
proof -
  from fp have p0: "future_p = 0" by (simp add: HERReplayBuffer_future_p_def)
  from draws have "\<forall>u \<in> set (her_uniform d). 0 \<le> u"
    by (simp add: uniform_contract_def list_all_iff)
  then have hi: "her_indexes_of future_p (her_uniform d) = []"
    unfolding p0 her_indexes_of_def by (auto simp: filter_empty_conv not_less)
  from ret obtain tr0 tr1 where
    dc: "draw_check T bufs = Inr ()"
    and tr0: "gather_fields bufs (episode_idxs d) (t_samples d) = Inr tr0"
    and tr1: "her_relabel future_p T d bufs tr0 = Inr tr1"
    and tr2: "her_reward reward_fun batch_size tr1 = Inr transitions"
    by (auto simp: HERReplayBuffer_sample_transitions_def bind_err_Inr)
  have same: "tr1 = tr0" using hi tr1 by (rule her_relabel_none)
  from her_reward_Inr[OF tr2] same obtain ag_2 g_2 where
    rw: "map_of tr0 ''ag_2'' = Some ag_2" "map_of tr0 ''g_2'' = Some g_2"
        "transitions = AList.update ''r'' (map (\<lambda>x. [x]) (reward_fun ag_2 g_2 (build_info tr0))) tr0"
        "list_all (\<lambda>(k, v). length v = batch_size) transitions"
    by auto
  from dc obtain u where "map_of bufs ''u'' = Some u"
    by (auto simp: draw_check_def split: option.splits)
  then obtain ur where ur: "map_of tr0 ''u'' = Some ur"
    by (auto simp: gather_fields_Inr(2)[OF tr0])
  then have "map_of transitions ''u'' = Some ur"
    unfolding rw(3) by (simp add: update_conv')
  then have "(''u'', ur) \<in> set transitions" by (rule map_of_SomeD)
  with rw(4) have lu: "length ur = batch_size" by (auto simp: list_all_iff)
  from ur have "(''u'', ur) \<in> set tr0" by (rule map_of_SomeD)
  with gather_fields_Inr(4)[OF tr0] lu
  have "min (length (episode_idxs d)) (length (t_samples d)) = batch_size" by auto
  with gather_fields_Inr(4)[OF tr0]
  have all: "list_all (\<lambda>(k, v). length v = batch_size) tr0" by (auto simp: list_all_iff)
  have "UniformReplayBuffer_sample_transitions T d bufs batch_size = Inr tr0"
    using dc tr0 all ur lu
    by (simp add: UniformReplayBuffer_sample_transitions_def reshape_fields_def)
  with rw(1,2,3) p0 hi show ?thesis by auto
qed


lemma ex_her_sample_k0:
  "HERReplayBuffer_sample_transitions 0 ex_reward 2 ex_draws ex_her_bufs 2
     = Inr [(''o'', [[1], [2]]), (''u'', [[0], [0]]), (''ag'', [[1], [2]]), (''g'', [[10], [10]]),
            (''r'', [[- 1], [- 1]]), (''o_2'', [[2], [3]]), (''ag_2'', [[2], [3]]),
            (''g_2'', [[10], [10]])]"
  by (simp add: HERReplayBuffer_sample_transitions_def draw_check_def gather_fields_def
      gather_ok_def her_relabel_def her_reward_def her_indexes_of_def future_offset_of_def
      take_idx_def gather_def set_rows_def build_info_def reshape_fields_def
      ex_her_bufs_def ex_draws_def ex_reward_def upt_conv_Cons)

lemma ex_uniform_sample:
  "UniformReplayBuffer_sample_transitions 2 ex_draws ex_her_bufs 2
     = Inr [(''o'', [[1], [2]]), (''u'', [[0], [0]]), (''ag'', [[1], [2]]), (''g'', [[10], [10]]),
            (''r'', [[5], [5]]), (''o_2'', [[2], [3]]), (''ag_2'', [[2], [3]]),
            (''g_2'', [[10], [10]])]"
  by (simp add: UniformReplayBuffer_sample_transitions_def draw_check_def gather_fields_def
      gather_ok_def reshape_fields_def ex_her_bufs_def ex_draws_def)

theorem C6_no_relabelling_with_k_zero_witness:
  "HERReplayBuffer_future_p 0 = Inr 0
   \<and> uniform_contract 2 (her_uniform ex_draws)
   \<and> HERReplayBuffer_sample_transitions 0 ex_reward 2 ex_draws ex_her_bufs 2
     = Inr [(''o'', [[1], [2]]), (''u'', [[0], [0]]), (''ag'', [[1], [2]]), (''g'', [[10], [10]]),
            (''r'', [[- 1], [- 1]]), (''o_2'', [[2], [3]]), (''ag_2'', [[2], [3]]),
            (''g_2'', [[10], [10]])]
   \<and> ((0::real) = 0 \<and> her_indexes_of 0 (her_uniform ex_draws) = []
       \<and> (\<exists>uniform_batch ag_2 g_2.
             UniformReplayBuffer_sample_transitions 2 ex_draws ex_her_bufs 2 = Inr uniform_batch
           \<and> map_of uniform_batch ''ag_2'' = Some ag_2 \<and> map_of uniform_batch ''g_2'' = Some g_2
           \<and> [(''o'', [[1], [2]]), (''u'', [[0], [0]]), (''ag'', [[1], [2]]), (''g'', [[10], [10]]),
               (''r'', [[- 1], [- 1]]), (''o_2'', [[2], [3]]), (''ag_2'', [[2], [3]]),
               (''g_2'', [[10], [10]])]
             = AList.update ''r''
                 (map (\<lambda>x. [x]) (ex_reward ag_2 g_2 (build_info uniform_batch))) uniform_batch))"
proof -
  have fp: "HERReplayBuffer_future_p 0 = Inr 0" by (simp add: HERReplayBuffer_future_p_def)
  have dr: "uniform_contract 2 (her_uniform ex_draws)"
    by (simp add: uniform_contract_def ex_draws_def)
  note c = C6_no_relabelling_with_k_zero [OF fp dr ex_her_sample_k0]
  show ?thesis by (rule conjI[OF fp conjI[OF dr conjI[OF ex_her_sample_k0 c]]])
qed

text \<open>
  The claim as stated fails on the field \<open>r\<close>: the hindsight sampler computes the reward
  anew for every record, the uniform sampler returns the stored one. For the buffer
  \<open>ex_her_bufs\<close>, whose stored reward is 5, and the same draws, the two batches differ.
\<close>

theorem C6_counterexample:
  "HERReplayBuffer_future_p 0 = Inr 0
   \<and> sample_draws_ok 1 2 2 ex_draws
   \<and> HERReplayBuffer_sample_transitions 0 ex_reward 2 ex_draws ex_her_bufs 2
     = Inr [(''o'', [[1], [2]]), (''u'', [[0], [0]]), (''ag'', [[1], [2]]), (''g'', [[10], [10]]),
            (''r'', [[- 1], [- 1]]), (''o_2'', [[2], [3]]), (''ag_2'', [[2], [3]]),
            (''g_2'', [[10], [10]])]
   \<and> UniformReplayBuffer_sample_transitions 2 ex_draws ex_her_bufs 2
     = Inr [(''o'', [[1], [2]]), (''u'', [[0], [0]]), (''ag'', [[1], [2]]), (''g'', [[10], [10]]),
            (''r'', [[5], [5]]), (''o_2'', [[2], [3]]), (''ag_2'', [[2], [3]]),
            (''g_2'', [[10], [10]])]
   \<and> HERReplayBuffer_sample_transitions 0 ex_reward 2 ex_draws ex_her_bufs 2
       \<noteq> UniformReplayBuffer_sample_transitions 2 ex_draws ex_her_bufs 2"
proof -
  have fp: "HERReplayBuffer_future_p 0 = Inr 0" by (simp add: HERReplayBuffer_future_p_def)
  have dr: "sample_draws_ok 1 2 2 ex_draws"
    by (simp add: sample_draws_ok_def randint_contract_def uniform_contract_def ex_draws_def)
  have ne: "HERReplayBuffer_sample_transitions 0 ex_reward 2 ex_draws ex_her_bufs 2
       \<noteq> UniformReplayBuffer_sample_transitions 2 ex_draws ex_her_bufs 2"
    unfolding ex_her_sample_k0 ex_uniform_sample by simp
  from fp dr ex_her_sample_k0 ex_uniform_sample ne show ?thesis by (intro conjI)
qed

subsection \<open>C2: the reward of a hindsight batch\<close>

lemma fold_info_update_other:
  assumes "take 5 k \<noteq> ''info_''"
  shows "fold (\<lambda>(key, val) info.
             if take 5 key = ''info_'' then AList.update (replace_info key) val info else info)
           (AList.update k v al) acc
       = fold (\<lambda>(key, val) info.
             if take 5 key = ''info_'' then AList.update (replace_info key) val info else info)
           al acc"
  using assms by (induction al arbitrary: acc) auto

lemma build_info_update_r: "build_info (AList.update ''r'' v al) = build_info al"
  unfolding build_info_def by (rule fold_info_update_other) simp

text \<open>
  The part of C2 that holds. In every batch that \<open>sample_transitions\<close> of the hindsight
  sampler returns, the field \<open>r\<close> has one row of one number per record, and these numbers
  are what \<open>reward_fun\<close> returns for the returned \<open>ag_2\<close> and \<open>g_2\<close> and for the \<open>info\<close>
  dictionary that the loop builds from the returned fields whose names start with
  \<open>info_\<close>. The key of such a field in \<open>info\<close> is its name with every occurrence of
  \<open>info_\<close> removed (\<open>replace_info\<close>).
\<close>

lemma HER_reward_recomputed:
  assumes "HERReplayBuffer_sample_transitions future_p reward_fun T d bufs batch_size = Inr transitions"
  shows "\<exists>ag_2 g_2. map_of transitions ''ag_2'' = Some ag_2 \<and> map_of transitions ''g_2'' = Some g_2
           \<and> map_of transitions ''r''
               = Some (map (\<lambda>x. [x]) (reward_fun ag_2 g_2 (build_info transitions)))
           \<and> length (reward_fun ag_2 g_2 (build_info transitions)) = batch_size"
proof -
  from assms obtain tr1 where tr2: "her_reward reward_fun batch_size tr1 = Inr transitions"
    by (auto simp: HERReplayBuffer_sample_transitions_def bind_err_Inr)
  from her_reward_Inr[OF tr2] obtain ag_2 g_2 where
    a: "map_of tr1 ''ag_2'' = Some ag_2" "map_of tr1 ''g_2'' = Some g_2"
    and t: "transitions = AList.update ''r'' (map (\<lambda>x. [x]) (reward_fun ag_2 g_2 (build_info tr1))) tr1"
    and l: "list_all (\<lambda>(k, v). length v = batch_size) transitions"
    by auto
  have bi: "build_info transitions = build_info tr1"
    unfolding t by (rule build_info_update_r)
  have r: "map_of transitions ''r'' = Some (map (\<lambda>x. [x]) (reward_fun ag_2 g_2 (build_info tr1)))"
    unfolding t by (simp add: update_conv')
  then have "(''r'', map (\<lambda>x. [x]) (reward_fun ag_2 g_2 (build_info tr1))) \<in> set transitions"
    by (rule map_of_SomeD)
  with l have len: "length (reward_fun ag_2 g_2 (build_info tr1)) = batch_size"
    by (auto simp: list_all_iff)
  have "map_of transitions ''ag_2'' = Some ag_2" "map_of transitions ''g_2'' = Some g_2"
    using a unfolding t by (simp_all add: update_conv')
  with r len bi show ?thesis by simp
qed

text \<open>
  C2 fails on the keys of \<open>info\<close>. \<open>key.replace("info_", "")\<close> removes every occurrence of
  \<open>info_\<close>, not the prefix alone: the field \<open>info_a_info_b\<close> is handed to \<open>reward_fun\<close>
  under the key \<open>a_b\<close>, where the name without its prefix is \<open>a_info_b\<close>. With the reward
  function \<open>ex_info_reward\<close> the returned reward is 0 for both records; for the \<open>info\<close>
  mapping of the claim it would be 1.
\<close>

theorem C2_info_key_loses_inner_occurrences:
  "take 5 ''info_a_info_b'' = ''info_''
   \<and> replace_info ''info_a_info_b'' = ''a_b''
   \<and> drop 5 ''info_a_info_b'' = ''a_info_b''
   \<and> HERReplayBuffer_sample_transitions 0 ex_info_reward 2 ex_draws ex_info_bufs 2
     = Inr [(''o'', [[1], [2]]), (''u'', [[0], [0]]), (''ag'', [[1], [2]]), (''g'', [[10], [10]]),
            (''r'', [[0], [0]]), (''o_2'', [[2], [3]]), (''ag_2'', [[2], [3]]),
            (''g_2'', [[10], [10]]), (''info_a_info_b'', [[1], [1]])]
   \<and> build_info [(''o'', [[1], [2]]), (''u'', [[0], [0]]), (''ag'', [[1], [2]]), (''g'', [[10], [10]]),
            (''r'', [[0], [0]]), (''o_2'', [[2], [3]]), (''ag_2'', [[2], [3]]),
            (''g_2'', [[10], [10]]), (''info_a_info_b'', [[1], [1::real]])]
     = [(''a_b'', [[1], [1]])]
   \<and> map (\<lambda>x. [x]) (ex_info_reward [[2], [3]] [[10], [10]] [(''a_info_b'', [[1], [1]])])
     = [[1], [1]]"
  by (simp add: HERReplayBuffer_sample_transitions_def draw_check_def gather_fields_def
      gather_ok_def her_relabel_def her_reward_def her_indexes_of_def future_offset_of_def
      take_idx_def gather_def set_rows_def build_info_def reshape_fields_def
      ex_info_bufs_def ex_her_bufs_def ex_draws_def ex_info_reward_def upt_conv_Cons)

subsection \<open>The invariant of the buffers\<close>

text \<open>
  The hypotheses on the state that the theorems above make (\<open>buffer_wf\<close>,
  \<open>arrays_sized\<close>, \<open>pointer \<le> size\<close>) hold for every buffer that the program can build:
  the constructors establish them for a schema with distinct field names, and
  \<open>store_episode\<close> keeps them, whether it returns or raises.
\<close>

lemma buffer_wf_arrays_sized: "buffer_wf shapes self \<Longrightarrow> arrays_sized self"
  by (simp add: buffer_wf_def arrays_sized_def)

lemma buffer_wf_Ring_init:
  "distinct (map fst shapes) \<Longrightarrow> buffer_wf shapes (RingReplayBuffer_init shapes C junk)"
  by (simp add: buffer_wf_def RingReplayBuffer_init_def np_empty_def list_all_iff
      split_beta comp_def)

lemma buffer_wf_Episode_init:
  "distinct (map fst shapes) \<Longrightarrow> ReplayBuffer_init shapes n T junk = Inr self
   \<Longrightarrow> buffer_wf shapes self"
  by (auto simp: buffer_wf_def ReplayBuffer_init_def np_empty_def list_all_iff
      split_beta comp_def split: if_splits)

lemma store_fields_shape:
  "store_fields bufs idxs eb = (r, bufs') \<Longrightarrow>
     map fst bufs' = map fst bufs
     \<and> map (\<lambda>(k, arr). ndim arr) bufs' = map (\<lambda>(k, arr). ndim arr) bufs
     \<and> map (\<lambda>(k, arr). length (items arr)) bufs' = map (\<lambda>(k, arr). length (items arr)) bufs"
proof (induction bufs arbitrary: r bufs')
  case Nil
  then show ?case by simp
next
  case (Cons b bufs)
  obtain key arr where b: "b = (key, arr)" by (cases b)
  show ?case
  proof (cases "map_of eb key")
    case None
    with Cons.prems b show ?thesis by auto
  next
    case (Some val)
    show ?thesis
    proof (cases "setitem arr idxs val")
      case (Inl e)
      with Cons.prems b Some show ?thesis by auto
    next
      case (Inr arr')
      obtain r0 rest' where st: "store_fields bufs idxs eb = (r0, rest')"
        by (cases "store_fields bufs idxs eb")
      from setitem_Inr(1,2)[OF Inr] Cons.IH[OF st] Cons.prems b Some Inr st
      show ?thesis by auto
    qed
  qed
qed

lemma store_episode_keeps_wf:
  assumes wf: "buffer_wf shapes self"
    and st: "store_episode gsi episode_batch self = (r, self')"
    and g: "\<And>inc idxs s. gsi inc self = Inr (idxs, s) \<Longrightarrow>
               buffers s = buffers self \<and> buffer_shapes s = buffer_shapes self
               \<and> size_buf s = size_buf self \<and> current_size s = current_size self"
  shows "buffer_wf shapes self'"
proof (cases episode_batch)
  case Nil
  with st wf show ?thesis by (simp add: store_episode_def)
next
  case (Cons p rest)
  obtain k first where p: "p = (k, first)" by (cases p)
  let ?n = "length (items first)"
  show ?thesis
  proof (cases "list_all (\<lambda>(key, val). length (items val) = ?n) episode_batch")
    case False
    with st Cons p have "self' = self" by (simp add: store_episode_def)
    with wf show ?thesis by simp
  next
    case True
    show ?thesis
    proof (cases "gsi ?n self")
      case (Inl e)
      with st Cons p True have "self' = self" by (simp add: store_episode_def)
      with wf show ?thesis by simp
    next
      case (Inr q)
      obtain idxs s1 where q: "q = (idxs, s1)" by (cases q)
      from g[of ?n idxs s1] Inr q have s1: "buffers s1 = buffers self"
        "buffer_shapes s1 = buffer_shapes self" "size_buf s1 = size_buf self"
        "current_size s1 = current_size self"
        by simp_all
      obtain r0 bufs where sf: "store_fields (buffers s1) idxs episode_batch = (r0, bufs)"
        by (cases "store_fields (buffers s1) idxs episode_batch")
      note sh = store_fields_shape[OF sf, unfolded s1]
      have lens: "list_all (\<lambda>(k, arr). length (items arr) = size_buf self) bufs"
      proof -
        from wf have "\<forall>x \<in> set (map (\<lambda>(k, arr). length (items arr)) (buffers self)). x = size_buf self"
          by (auto simp: buffer_wf_def list_all_iff)
        with sh have "\<forall>x \<in> set (map (\<lambda>(k, arr). length (items arr)) bufs). x = size_buf self"
          by simp
        then show ?thesis by (auto simp: list_all_iff)
      qed
      have "self' = s1\<lparr>buffers := bufs\<rparr>
          \<or> self' = s1\<lparr>buffers := bufs, current_size := min (size_buf s1) (current_size s1 + ?n)\<rparr>"
        using st Cons p True Inr q sf by (cases r0) (auto simp: store_episode_def)
      then show ?thesis
        using wf sh lens s1 by (auto simp: buffer_wf_def)
    qed
  qed
qed

lemma Ring_store_keeps_invariant:
  assumes "buffer_wf shapes self" and "pointer self \<le> size_buf self"
    and "RingReplayBuffer_store_episode episode_batch self = (r, self')"
  shows "buffer_wf shapes self' \<and> pointer self' \<le> size_buf self'"
proof
  show "buffer_wf shapes self'"
    using assms(1) assms(3)[unfolded RingReplayBuffer_store_episode_def]
    by (rule store_episode_keeps_wf)
       (auto simp: RingReplayBuffer_get_storage_idx_def Let_def split: if_splits)
  show "pointer self' \<le> size_buf self'"
    using assms(2,3)
    by (auto simp: RingReplayBuffer_store_episode_def store_episode_def
        RingReplayBuffer_get_storage_idx_def Let_def
        split: list.splits if_splits sum.splits prod.splits option.splits)
qed

lemma Episode_store_keeps_invariant:
  assumes "buffer_wf shapes self"
    and "ReplayBuffer_store_episode draws episode_batch self = (r, self')"
  shows "buffer_wf shapes self'"
  using assms(1) assms(2)[unfolded ReplayBuffer_store_episode_def]
  by (rule store_episode_keeps_wf)
     (auto simp: ReplayBuffer_get_storage_idx_def Let_def split: if_splits)

end
